theory Spec2Isabelle
  imports Main "HOL-Library.Sublist" "HOL-Library.AList"
begin

section \<open>Strings\<close>

text \<open>
  A Python \<open>str\<close> is modelled as a \<open>string\<close>, one \<open>char\<close> per character. The
  functions below are the string methods that \<open>kedro/framework/cli/pipeline.py\<close> calls.
\<close>

text \<open>\<open>s.split(sep)\<close> for a separator of one character: every separator cuts.\<close>

fun split_chr :: "char \<Rightarrow> string \<Rightarrow> string list" where
  "split_chr sep [] = [[]]"
| "split_chr sep (c # cs) =
     (if c = sep then [] # split_chr sep cs
      else (c # hd (split_chr sep cs)) # tl (split_chr sep cs))"

text \<open>
  \<open>s.rsplit(sep, maxsplit)\<close> for a separator of one character: at most \<open>maxsplit\<close> cuts,
  taken from the right.
\<close>

fun rsplit :: "char \<Rightarrow> nat \<Rightarrow> string \<Rightarrow> string list" where
  "rsplit sep 0 s = [s]"
| "rsplit sep (Suc n) s =
     (if sep \<in> set s
      then rsplit sep n (rev (tl (dropWhile (\<lambda>c. c \<noteq> sep) (rev s))))
             @ [rev (takeWhile (\<lambda>c. c \<noteq> sep) (rev s))]
      else [s])"

text \<open>\<open>_split_on_last_dot\<close>\<close>

definition split_on_last_dot :: "string \<Rightarrow> string \<times> string" where
  "split_on_last_dot input_string =
     (let parts = rsplit (CHR ''.'') 1 input_string;
          expected_nb_parts = 2
      in if length parts = expected_nb_parts then (parts ! 0, parts ! 1)
         else ('''', input_string))"

section \<open>Regular expressions\<close>

text \<open>
  The patterns of the module use character classes, concatenation, \<open>*\<close> and \<open>+\<close>. A
  pattern is a value of \<open>regex\<close>; \<open>matches\<close> decides whether a whole string belongs to
  the pattern, by taking the derivative of the pattern for each character in turn.
\<close>

datatype regex =
    Never
  | Empty
  | Class "char \<Rightarrow> bool"
  | Alt regex regex
  | Cat regex regex
  | Star regex

definition Plus :: "regex \<Rightarrow> regex" where
  "Plus r = Cat r (Star r)"

primrec nullable :: "regex \<Rightarrow> bool" where
  "nullable Never = False"
| "nullable Empty = True"
| "nullable (Class P) = False"
| "nullable (Alt r s) = (nullable r \<or> nullable s)"
| "nullable (Cat r s) = (nullable r \<and> nullable s)"
| "nullable (Star r) = True"

primrec deriv :: "char \<Rightarrow> regex \<Rightarrow> regex" where
  "deriv c Never = Never"
| "deriv c Empty = Never"
| "deriv c (Class P) = (if P c then Empty else Never)"
| "deriv c (Alt r s) = Alt (deriv c r) (deriv c s)"
| "deriv c (Cat r s) =
     (if nullable r then Alt (Cat (deriv c r) s) (deriv c s) else Cat (deriv c r) s)"
| "deriv c (Star r) = Cat (deriv c r) (Star r)"

fun matches :: "regex \<Rightarrow> string \<Rightarrow> bool" where
  "matches r [] = nullable r"
| "matches r (c # cs) = matches (deriv c r) cs"

text \<open>
  \<open>re.match(p, s)\<close> succeeds when the pattern matches at the beginning of \<open>s\<close>, that is,
  when it matches some prefix of \<open>s\<close>; a leading \<open>^\<close> in \<open>p\<close> adds nothing to that.
\<close>

fun re_match :: "regex \<Rightarrow> string \<Rightarrow> bool" where
  "re_match r [] = nullable r"
| "re_match r (c # cs) = (nullable r \<or> re_match (deriv c r) cs)"

text \<open>
  \<open>re.match(p + "$", s)\<close>: without the \<open>MULTILINE\<close> flag, \<open>$\<close> holds at the end of the
  string and also just before a newline that is the last character of the string.
\<close>

definition re_match_dollar :: "regex \<Rightarrow> string \<Rightarrow> bool" where
  "re_match_dollar r s =
     (matches r s \<or> (s \<noteq> [] \<and> last s = CHR 0x0A \<and> matches r (butlast s)))"

text \<open>
  The class \<open>[a-zA-Z_]\<close>, and the class \<open>\w\<close>. For a \<open>str\<close> pattern \<open>\w\<close> is the
  underscore and every alphanumeric character of the Unicode database: \<open>[a-zA-Z0-9_]\<close>
  on ASCII, and the characters of \<open>latin1_alnum\<close> among the code points from 128 to 255,
  the ones a \<open>char\<close> can hold besides ASCII.
\<close>

definition in_range :: "char \<Rightarrow> char \<Rightarrow> char \<Rightarrow> bool" where
  "in_range lo hi c = ((of_char lo :: nat) \<le> of_char c \<and> (of_char c :: nat) \<le> of_char hi)"

definition ascii_letter :: "char \<Rightarrow> bool" where
  "ascii_letter c = (in_range (CHR ''a'') (CHR ''z'') c \<or> in_range (CHR ''A'') (CHR ''Z'') c)"

definition ascii_digit :: "char \<Rightarrow> bool" where
  "ascii_digit c = in_range (CHR ''0'') (CHR ''9'') c"

definition letter_or_underscore :: "char \<Rightarrow> bool" where
  "letter_or_underscore c = (ascii_letter c \<or> c = CHR ''_'')"

definition latin1_alnum :: "char \<Rightarrow> bool" where
  "latin1_alnum c =
     (c = CHR 0xAA \<or> in_range (CHR 0xB2) (CHR 0xB3) c \<or> c = CHR 0xB5
      \<or> in_range (CHR 0xB9) (CHR 0xBA) c \<or> in_range (CHR 0xBC) (CHR 0xBE) c
      \<or> in_range (CHR 0xC0) (CHR 0xD6) c \<or> in_range (CHR 0xD8) (CHR 0xF6) c
      \<or> in_range (CHR 0xF8) (CHR 0xFF) c)"

definition word_char :: "char \<Rightarrow> bool" where
  "word_char c = (ascii_letter c \<or> ascii_digit c \<or> c = CHR ''_'' \<or> latin1_alnum c)"

section \<open>Errors\<close>

datatype error =
    KedroCliError string
  | KedroCliErrorFrom error
  | FileExistsError
  | FileNotFoundError
  | NotADirectoryError
  | IsADirectoryError
  | SameFileError
  | PermissionError

section \<open>Name validation\<close>

text \<open>
  \<open>_assert_pkg_name_ok\<close>; \<open>Inr ()\<close> is the return without an exception. The first
  pattern is \<open>^[a-zA-Z_]\<close>; \<open>name_pattern\<close> is \<open>\w(\w+\.)*\w+\<close>, which the code
  matches with \<open>^\<close> before it and \<open>$\<close> after it.
\<close>

definition name_pattern :: regex where
  "name_pattern =
     Cat (Class word_char)
       (Cat (Star (Cat (Plus (Class word_char)) (Class (\<lambda>c. c = CHR ''.''))))
            (Plus (Class word_char)))"

definition assert_pkg_name_ok :: "string \<Rightarrow> error + unit" where
  "assert_pkg_name_ok pkg_name =
     (let base_message = [CHR 0x27] @ pkg_name @ [CHR 0x27] @ '' is not a valid Python package name.''
      in if \<not> re_match (Class letter_or_underscore) pkg_name
         then Inl (KedroCliError (base_message @ '' It must start with a letter or underscore.''))
         else if length pkg_name < 2
         then Inl (KedroCliError (base_message @ '' It must be at least 2 characters long.''))
         else if \<not> re_match_dollar name_pattern pkg_name
         then Inl (KedroCliError (base_message
                     @ '' It must contain only letters, digits, and/or underscores.''
                     @ '' Folders should be separated by '' @ [CHR 0x27] @ ''.'' @ [CHR 0x27]))
         else Inr ())"

text \<open>\<open>_check_pipeline_name\<close>: the empty name is passed on without validation.\<close>

definition check_pipeline_name :: "string \<Rightarrow> error + string" where
  "check_pipeline_name v =
     (if v \<noteq> [] then (case assert_pkg_name_ok v of Inl e \<Rightarrow> Inl e | Inr _ \<Rightarrow> Inr v)
      else Inr v)"

section \<open>The language of a pattern, and the naming rules\<close>

text \<open>
  The strings a pattern denotes. \<open>matches\<close> is proved below to decide membership in
  \<open>lang\<close>, which is what the properties of the name pattern are derived from.
\<close>

definition conc :: "string set \<Rightarrow> string set \<Rightarrow> string set" where
  "conc A B = {u @ v | u v. u \<in> A \<and> v \<in> B}"

inductive_set star :: "string set \<Rightarrow> string set" for A :: "string set" where
  star_nil: "[] \<in> star A"
| star_step: "u \<in> A \<Longrightarrow> v \<in> star A \<Longrightarrow> u @ v \<in> star A"

primrec lang :: "regex \<Rightarrow> string set" where
  "lang Never = {}"
| "lang Empty = {[]}"
| "lang (Class P) = {[c] | c. P c}"
| "lang (Alt r s) = lang r \<union> lang s"
| "lang (Cat r s) = conc (lang r) (lang s)"
| "lang (Star r) = star (lang r)"

definition folders :: "string set" where
  "folders =
     lang (Cat (Star (Cat (Plus (Class word_char)) (Class (\<lambda>c. c = CHR ''.''))))
               (Plus (Class word_char)))"

text \<open>\<open>sep.join(parts)\<close> for a separator of one character.\<close>

fun join_chr :: "char \<Rightarrow> string list \<Rightarrow> string" where
  "join_chr sep [] = []"
| "join_chr sep [x] = x"
| "join_chr sep (x # y # ys) = x @ sep # join_chr sep (y # ys)"

text \<open>
  The naming rules as the error messages of \<open>_assert_pkg_name_ok\<close> word them: the name
  starts with a letter or an underscore, it is at least 2 characters long, and it is made
  of folder names separated by \<open>.\<close>, each folder name a non-empty run of letters, digits
  and underscores.
\<close>

definition segments_ok :: "string \<Rightarrow> bool" where
  "segments_ok s =
     (\<forall>seg \<in> set (split_chr (CHR ''.'') s). seg \<noteq> [] \<and> (\<forall>c \<in> set seg. word_char c))"

definition pkg_name_rules :: "string \<Rightarrow> bool" where
  "pkg_name_rules s =
     (s \<noteq> [] \<and> letter_or_underscore (hd s) \<and> 2 \<le> length s \<and> segments_ok s)"

section \<open>The file system\<close>

text \<open>
  The module works on the file system through \<open>pathlib\<close> and \<open>shutil\<close>. The file
  system is modelled as a tree: a node is a regular file with its bytes or a directory
  with its entries, in the order in which \<open>iterdir\<close> lists them. A path is the list of
  the names from the root of the tree down. Permissions, quotas and links are not part of
  the model, so an operation fails exactly when the shape of the tree makes it fail.
\<close>

type_synonym bytes = string

datatype node = File bytes | Dir "(string \<times> node) list"

type_synonym path = "string list"

fun child :: "node \<Rightarrow> string \<Rightarrow> node option" where
  "child (File b) x = None"
| "child (Dir es) x = map_of es x"

fun lookup :: "node \<Rightarrow> path \<Rightarrow> node option" where
  "lookup n [] = Some n"
| "lookup n (x # p) = (case child n x of None \<Rightarrow> None | Some c \<Rightarrow> lookup c p)"

text \<open>\<open>Path.exists\<close>, \<open>Path.is_file\<close>, \<open>Path.is_dir\<close>, \<open>Path.iterdir\<close>, \<open>Path.name\<close>.\<close>

definition exists_path :: "node \<Rightarrow> path \<Rightarrow> bool" where
  "exists_path fs p = (lookup fs p \<noteq> None)"

definition is_file :: "node \<Rightarrow> path \<Rightarrow> bool" where
  "is_file fs p = (case lookup fs p of Some (File b) \<Rightarrow> True | _ \<Rightarrow> False)"

definition is_dir :: "node \<Rightarrow> path \<Rightarrow> bool" where
  "is_dir fs p = (case lookup fs p of Some (Dir es) \<Rightarrow> True | _ \<Rightarrow> False)"

definition iterdir :: "node \<Rightarrow> path \<Rightarrow> path list" where
  "iterdir fs p = (case lookup fs p of Some (Dir es) \<Rightarrow> map (\<lambda>e. p @ [fst e]) es | _ \<Rightarrow> [])"

definition name :: "path \<Rightarrow> string" where
  "name p = (if p = [] then [] else last p)"

text \<open>
  A directory of a real file system has no two entries of the same name, and no entry
  with the empty name.
\<close>

fun wf_node :: "node \<Rightarrow> bool" where
  "wf_node (File b) = True"
| "wf_node (Dir es) =
     (distinct (map fst es) \<and> [] \<notin> set (map fst es) \<and> (\<forall>c \<in> set (map snd es). wf_node c))"

text \<open>
  \<open>Path.mkdir(parents=True, exist_ok=True)\<close>: the directory and its missing ancestors
  are created; an existing directory is left as it is; the call fails, before it has
  created anything, when the path or one of its ancestors is a regular file.
\<close>

fun mkdir :: "node \<Rightarrow> path \<Rightarrow> error + node" where
  "mkdir (Dir es) [] = Inr (Dir es)"
| "mkdir (File b) [] = Inl FileExistsError"
| "mkdir (File b) (x # p) = Inl NotADirectoryError"
| "mkdir (Dir es) (x # p) =
     (case mkdir (case map_of es x of None \<Rightarrow> Dir [] | Some c \<Rightarrow> c) p of
        Inl e \<Rightarrow> Inl e
      | Inr c' \<Rightarrow> Inr (Dir (AList.update x c' es)))"

text \<open>
  Opening a path for writing and writing \<open>b\<close> to it: the file is created or replaced;
  the call fails when the path is a directory or when its parent is not a directory.
\<close>

fun write_file :: "node \<Rightarrow> path \<Rightarrow> bytes \<Rightarrow> error + node" where
  "write_file (Dir es) [] b = Inl IsADirectoryError"
| "write_file (File b0) [] b = Inr (File b)"
| "write_file (File b0) (x # p) b = Inl NotADirectoryError"
| "write_file (Dir es) (x # p) b =
     (case map_of es x of
        None \<Rightarrow> if p = [] then Inr (Dir (AList.update x (File b) es)) else Inl FileNotFoundError
      | Some c \<Rightarrow>
          (case write_file c p b of
             Inl e \<Rightarrow> Inl e
           | Inr c' \<Rightarrow> Inr (Dir (AList.update x c' es))))"

text \<open>
  \<open>shutil.copyfile(src, dst)\<close>: refuses to copy a file onto itself, reads the bytes of
  \<open>src\<close> and writes them to \<open>dst\<close>.
\<close>

definition copyfile :: "node \<Rightarrow> path \<Rightarrow> path \<Rightarrow> error + node" where
  "copyfile fs src dst =
     (if exists_path fs src \<and> src = dst then Inl SameFileError
      else case lookup fs src of
             None \<Rightarrow> Inl FileNotFoundError
           | Some (Dir es) \<Rightarrow> Inl IsADirectoryError
           | Some (File b) \<Rightarrow> write_file fs dst b)"

text \<open>
  Removing the entry at a path, with everything below it; the root is never an entry.
\<close>

fun remove :: "node \<Rightarrow> path \<Rightarrow> node" where
  "remove n [] = n"
| "remove (File b) (x # p) = File b"
| "remove (Dir es) (x # p) =
     (if p = [] then Dir (AList.delete x es)
      else case map_of es x of
             None \<Rightarrow> Dir es
           | Some c \<Rightarrow> Dir (AList.update x (remove c p) es))"

text \<open>\<open>shutil.rmtree(p)\<close> removes a directory tree; \<open>Path.unlink()\<close> removes a file.\<close>

definition rmtree :: "node \<Rightarrow> path \<Rightarrow> error + node" where
  "rmtree fs p =
     (case lookup fs p of
        None \<Rightarrow> Inl FileNotFoundError
      | Some (File b) \<Rightarrow> Inl NotADirectoryError
      | Some (Dir es) \<Rightarrow> if p = [] then Inl PermissionError else Inr (remove fs p))"

definition unlink :: "node \<Rightarrow> path \<Rightarrow> error + node" where
  "unlink fs p =
     (case lookup fs p of
        None \<Rightarrow> Inl FileNotFoundError
      | Some (Dir es) \<Rightarrow> Inl IsADirectoryError
      | Some (File b) \<Rightarrow> Inr (remove fs p))"

section \<open>The merge-copier\<close>

text \<open>
  What a call can change is the file system and the terminal. The state carries both:
  \<open>out\<close> is the sequence of the pieces printed so far, one event for each call of
  \<open>click.echo\<close> or \<open>click.secho\<close>.
\<close>

datatype event =
    Creating string path
  | SKIPPED
  | OK
  | FAILED
  | Newline
  | Deleting string
  | Message string
  | PathList "string list"
  | Confirm string

record state =
  fs :: node
  out :: "event list"

definition echo :: "event \<Rightarrow> state \<Rightarrow> state" where
  "echo e st = st\<lparr>out := out st @ [e]\<rparr>"

text \<open>
  The outcome of a call: \<open>None\<close> when it returns, \<open>Some e\<close> when it raises \<open>e\<close>, with
  the state it leaves behind in both cases.
\<close>

type_synonym outcome = "error option \<times> state"

text \<open>
  \<open>_sync_dirs\<close>. The condition of rule #1 is \<open>rule1\<close>; Python reads
  \<open>a and b or c and d\<close> as \<open>(a and b) or (c and d)\<close>.

  The function calls itself for each directory of the source, and what it finds there
  depends on the file system as the calls before have left it, so the recursion is not
  structural: \<open>sync_dirs\<close> takes the number of nested calls it may make as its first
  argument, and its result is \<open>None\<close> when that number does not suffice. The \<open>for\<close>
  loop is \<open>sync_loop\<close>, over the items of \<open>content\<close> that are left.

  The recursive call passes \<open>source_path\<close>, \<open>target_path\<close> and the new prefix, and
  leaves \<open>overwrite\<close> to its default \<open>False\<close>.
\<close>

definition rule1 :: "bool \<Rightarrow> string \<Rightarrow> string list \<Rightarrow> string list \<Rightarrow> bool \<Rightarrow> bool" where
  "rule1 overwrite source_name existing_files existing_folders source_is_file =
     ((\<not> overwrite \<and> source_name \<in> set existing_files)
      \<or> (source_is_file \<and> source_name \<in> set existing_folders))"

text \<open>
  The \<open>try\<close> block of rule #2 with its handler: the target directory is made, the file
  is copied, and a failure of either is reported and raised again.
\<close>

definition copy_item :: "path \<Rightarrow> path \<Rightarrow> path \<Rightarrow> state \<Rightarrow> outcome" where
  "copy_item target source_path target_path st1 =
     (case mkdir (fs st1) target of
        Inl e \<Rightarrow> (Some e, echo FAILED st1)
      | Inr fs2 \<Rightarrow>
          (case copyfile fs2 source_path target_path of
             Inl e \<Rightarrow> (Some e, echo FAILED (st1\<lparr>fs := fs2\<rparr>))
           | Inr fs3 \<Rightarrow> (None, echo OK (st1\<lparr>fs := fs3\<rparr>))))"

function (sequential) sync_dirs :: "nat \<Rightarrow> path \<Rightarrow> path \<Rightarrow> string \<Rightarrow> bool \<Rightarrow> state \<Rightarrow> outcome option"
and sync_loop ::
  "nat \<Rightarrow> path \<Rightarrow> string \<Rightarrow> bool \<Rightarrow> string list \<Rightarrow> string list \<Rightarrow> path list \<Rightarrow> state
     \<Rightarrow> outcome option"
where
  "sync_dirs 0 source target pfx overwrite st = None"
| "sync_dirs (Suc n) source target pfx overwrite st =
     (let existing = (if is_dir (fs st) target then iterdir (fs st) target else []);
          existing_files = map name (filter (is_file (fs st)) existing);
          existing_folders = map name (filter (is_dir (fs st)) existing);
          content = (if is_dir (fs st) source then iterdir (fs st) source
                     else if is_file (fs st) source then [source]
                     else [])
      in sync_loop n target pfx overwrite existing_files existing_folders content st)"
| "sync_loop n target pfx overwrite existing_files existing_folders [] st = Some (None, st)"
| "sync_loop n target pfx overwrite existing_files existing_folders (source_path # rest) st =
     (let source_name = name source_path;
          target_path = target @ [source_name];
          st1 = echo (Creating pfx target_path) st
      in if rule1 overwrite source_name existing_files existing_folders
              (is_file (fs st1) source_path)
         then sync_loop n target pfx overwrite existing_files existing_folders rest
                (echo SKIPPED st1)
         else if is_file (fs st1) source_path
         then (case copy_item target source_path target_path st1 of
                 (Some e, st2) \<Rightarrow> Some (Some e, st2)
               | (None, st2) \<Rightarrow>
                   sync_loop n target pfx overwrite existing_files existing_folders rest st2)
         else (case sync_dirs n source_path target_path (pfx @ ''  '') False
                      (echo Newline st1) of
                 None \<Rightarrow> None
               | Some (Some e, st2) \<Rightarrow> Some (Some e, st2)
               | Some (None, st2) \<Rightarrow>
                   sync_loop n target pfx overwrite existing_files existing_folders rest st2))"
  by pat_completeness auto

termination
  by (relation "inv_image (less_than <*lex*> less_than <*lex*> less_than)
        (\<lambda>x. case x of
           Inl (n, source, target, pfx, overwrite, st) \<Rightarrow> (n, 0, 0)
         | Inr (n, target, pfx, overwrite, existing_files, existing_folders, content, st) \<Rightarrow>
             (n, 1, length content))")
     auto

text \<open>
  Reading the terminal: the target paths that were reported as copied, that is, the
  paths of the \<open>Creating\<close> pieces that are followed by \<open>OK\<close>.
\<close>

definition is_creating :: "event \<Rightarrow> bool" where
  "is_creating e = (case e of Creating pfx p \<Rightarrow> True | _ \<Rightarrow> False)"

fun copied :: "event list \<Rightarrow> path list" where
  "copied [] = []"
| "copied (e # evs) =
     (case e of
        Creating pfx p \<Rightarrow> if evs \<noteq> [] \<and> hd evs = OK then p # copied evs else copied evs
      | _ \<Rightarrow> copied evs)"

definition failure_shape :: "event list \<Rightarrow> error option \<Rightarrow> bool" where
  "failure_shape evs r \<longleftrightarrow>
     (FAILED \<in> set evs \<longleftrightarrow> r \<noteq> None) \<and>
     (r \<noteq> None \<longrightarrow> evs \<noteq> [] \<and> last evs = FAILED \<and> FAILED \<notin> set (butlast evs))"

text \<open>
  What \<open>_sync_dirs\<close> computes when it is entered: the names of the regular files and
  of the directories that the target holds, and the items to copy.
\<close>

definition existing_files_in :: "node \<Rightarrow> path \<Rightarrow> string list" where
  "existing_files_in root target =
     map name (filter (is_file root) (if is_dir root target then iterdir root target else []))"

definition existing_folders_in :: "node \<Rightarrow> path \<Rightarrow> string list" where
  "existing_folders_in root target =
     map name (filter (is_dir root) (if is_dir root target then iterdir root target else []))"

definition content_of :: "node \<Rightarrow> path \<Rightarrow> path list" where
  "content_of root source =
     (if is_dir root source then iterdir root source
      else if is_file root source then [source] else [])"

text \<open>
  The pieces that were printed right after a given piece. After \<open>Creating\<close> for an
  item, \<open>_sync_dirs\<close> prints \<open>SKIPPED\<close> when rule #1 applies, \<open>OK\<close> or \<open>FAILED\<close> when
  it copies a file, and a newline when it calls itself for a directory.
\<close>

fun followers :: "event \<Rightarrow> event list \<Rightarrow> event list" where
  "followers e (x # y # evs) = (if x = e then [y] else []) @ followers e (y # evs)"
| "followers e evs = []"

text \<open>
  The \<open>try\<close> blocks that a call comes to. \<open>arrives n source target pfx overwrite st
  (target', source_path, st1)\<close> says that the call of \<open>_sync_dirs\<close> with these arguments
  in the state \<open>st\<close>, or one of the calls that it makes of itself, comes to the \<open>try\<close>
  block of rule #2 for the item \<open>source_path\<close>, with \<open>target'\<close> as the target directory
  of that frame, in the state \<open>st1\<close>: the file system as it is then, and what has been
  printed up to the \<open>Creating\<close> piece of the item. A call comes to what its loop comes
  to (\<open>call\<close>). The loop comes to its first item, which is a file that rule #1 does not
  skip (\<open>this_item\<close>) or a directory for which the function calls itself and comes to
  an item there (\<open>below\<close>); and it comes to what the loop over the other items comes to
  once the first item has been handled without an exception (\<open>later\<close>).
\<close>

inductive arrives ::
  "nat \<Rightarrow> path \<Rightarrow> path \<Rightarrow> string \<Rightarrow> bool \<Rightarrow> state \<Rightarrow> path \<times> path \<times> state \<Rightarrow> bool"
and arrives_loop ::
  "nat \<Rightarrow> path \<Rightarrow> string \<Rightarrow> bool \<Rightarrow> string list \<Rightarrow> string list \<Rightarrow> path list \<Rightarrow> state
     \<Rightarrow> path \<times> path \<times> state \<Rightarrow> bool"
where
  call:
    "arrives_loop n target pfx overwrite
        (existing_files_in (fs st) target) (existing_folders_in (fs st) target)
        (content_of (fs st) source) st point
     \<Longrightarrow> arrives (Suc n) source target pfx overwrite st point"
| this_item:
    "\<not> rule1 overwrite (name source_path) existing_files existing_folders
          (is_file (fs st) source_path)
     \<Longrightarrow> is_file (fs st) source_path
     \<Longrightarrow> arrives_loop n target pfx overwrite existing_files existing_folders
           (source_path # rest) st
           (target, source_path, echo (Creating pfx (target @ [name source_path])) st)"
| below:
    "\<not> rule1 overwrite (name source_path) existing_files existing_folders
          (is_file (fs st) source_path)
     \<Longrightarrow> \<not> is_file (fs st) source_path
     \<Longrightarrow> arrives n source_path (target @ [name source_path]) (pfx @ ''  '') False
           (echo Newline (echo (Creating pfx (target @ [name source_path])) st)) point
     \<Longrightarrow> arrives_loop n target pfx overwrite existing_files existing_folders
           (source_path # rest) st point"
| later:
    "sync_loop n target pfx overwrite existing_files existing_folders [source_path] st
       = Some (None, st2)
     \<Longrightarrow> arrives_loop n target pfx overwrite existing_files existing_folders rest st2 point
     \<Longrightarrow> arrives_loop n target pfx overwrite existing_files existing_folders
           (source_path # rest) st point"

code_pred (modes: i \<Rightarrow> i \<Rightarrow> i \<Rightarrow> i \<Rightarrow> i \<Rightarrow> i \<Rightarrow> o \<Rightarrow> bool,
                  i \<Rightarrow> i \<Rightarrow> i \<Rightarrow> i \<Rightarrow> i \<Rightarrow> i \<Rightarrow> i \<Rightarrow> bool) arrives .

text \<open>
  The number of levels of directories in a tree, which bounds the number of nested calls
  that \<open>_sync_dirs\<close> makes on it.
\<close>

fun height :: "node \<Rightarrow> nat"
and height_list :: "(string \<times> node) list \<Rightarrow> nat" where
  "height (File b) = 0"
| "height (Dir es) = Suc (height_list es)"
| "height_list [] = 0"
| "height_list (e # es) = max (height (snd e)) (height_list es)"

definition depth :: "node \<Rightarrow> path \<Rightarrow> nat" where
  "depth root p = (case lookup root p of None \<Rightarrow> 0 | Some c \<Rightarrow> height c)"

text \<open>Two paths of which neither leads to the other: neither is inside the other.\<close>

definition apart :: "path \<Rightarrow> path \<Rightarrow> bool" where
  "apart p q \<longleftrightarrow> \<not> prefix p q \<and> \<not> prefix q p"

text \<open>
  What a path shows: nothing, a regular file with its bytes, or a directory.
\<close>

datatype kind = Regular bytes | Directory

definition stat :: "node \<Rightarrow> path \<Rightarrow> kind option" where
  "stat root p =
     (case lookup root p of
        None \<Rightarrow> None
      | Some (File b) \<Rightarrow> Some (Regular b)
      | Some (Dir es) \<Rightarrow> Some Directory)"

text \<open>Whether a tree holds a regular file, at any depth.\<close>

fun has_file :: "node \<Rightarrow> bool"
and has_file_list :: "(string \<times> node) list \<Rightarrow> bool" where
  "has_file (File b) = True"
| "has_file (Dir es) = has_file_list es"
| "has_file_list [] = False"
| "has_file_list (e # es) = (has_file (snd e) \<or> has_file_list es)"

text \<open>
  What the copy of a tree \<open>S\<close> shows at a path: the files of \<open>S\<close> with their bytes, the
  directories of \<open>S\<close> that hold a file, and nothing where \<open>S\<close> has a directory that
  holds no file.
\<close>

definition copy_stat :: "node \<Rightarrow> path \<Rightarrow> kind option" where
  "copy_stat S q =
     (case lookup S q of
        None \<Rightarrow> None
      | Some (File b) \<Rightarrow> Some (Regular b)
      | Some (Dir es) \<Rightarrow> if has_file (Dir es) then Some Directory else None)"

text \<open>
  The state \<open>st'\<close> shows the state \<open>st\<close> with the copy of \<open>S\<close> at the path \<open>t\<close>: the
  directories on the way to \<open>t\<close> exist if \<open>S\<close> holds a file, below \<open>t\<close> is the copy of
  \<open>S\<close>, and everything apart from \<open>t\<close> is as before.
\<close>

definition merged :: "state \<Rightarrow> path \<Rightarrow> node \<Rightarrow> state \<Rightarrow> bool" where
  "merged st t S st' \<longleftrightarrow>
     (\<forall>q. strict_prefix q t \<longrightarrow>
        stat (fs st') q = (if has_file S then Some Directory else stat (fs st) q)) \<and>
     stat (fs st') t = (if has_file S then copy_stat S [] else stat (fs st) t) \<and>
     (\<forall>q. q \<noteq> [] \<longrightarrow> stat (fs st') (t @ q) = copy_stat S q) \<and>
     (\<forall>q. apart q t \<longrightarrow> stat (fs st') q = stat (fs st) q)"

text \<open>Whether \<open>mkdir(parents=True, exist_ok=True)\<close> of a path succeeds.\<close>

definition can_mkdir :: "node \<Rightarrow> path \<Rightarrow> bool" where
  "can_mkdir root p = (case mkdir root p of Inl e \<Rightarrow> False | Inr root' \<Rightarrow> True)"

section \<open>The two callers of the merge-copier\<close>

text \<open>
  \<open>_copy_pipeline_tests\<close> and \<open>_copy_pipeline_configs\<close>. Both run the merge inside
  \<open>try\<close> with \<open>shutil.rmtree\<close> of the source in \<open>finally\<close>: the removal runs whether the
  merge returned or raised; if the removal raises, that exception is the outcome;
  otherwise the outcome is the one of the merge.
\<close>

definition copy_pipeline_tests :: "nat \<Rightarrow> path \<Rightarrow> path \<Rightarrow> state \<Rightarrow> outcome option" where
  "copy_pipeline_tests n result_path tests_target st =
     (let tests_source = result_path @ [''tests'']
      in case sync_dirs n tests_source tests_target [] False st of
           None \<Rightarrow> None
         | Some (r, st1) \<Rightarrow>
             (case rmtree (fs st1) tests_source of
                Inl e \<Rightarrow> Some (Some e, st1)
              | Inr fs2 \<Rightarrow> Some (r, st1\<lparr>fs := fs2\<rparr>)))"

definition copy_pipeline_configs ::
  "nat \<Rightarrow> path \<Rightarrow> path \<Rightarrow> bool \<Rightarrow> string \<Rightarrow> state \<Rightarrow> outcome option" where
  "copy_pipeline_configs n result_path conf_path skip_config env st =
     (let config_source = result_path @ [''config'']
      in case (if \<not> skip_config
               then (let config_target = conf_path @ [env]
                     in sync_dirs n config_source config_target [] False st)
               else Some (None, st)) of
           None \<Rightarrow> None
         | Some (r, st1) \<Rightarrow>
             (case rmtree (fs st1) config_source of
                Inl e \<Rightarrow> Some (Some e, st1)
              | Inr fs2 \<Rightarrow> Some (r, st1\<lparr>fs := fs2\<rparr>)))"

section \<open>Deleting a pipeline\<close>

text \<open>
  \<open>delete_pipeline\<close> builds its paths with \<open>pathlib\<close> from strings that it does not
  check (the package name, the configuration source, the environment), so the paths are
  modelled as \<open>pathlib\<close> keeps them on a POSIX system: the root (empty for a relative
  path, \<open>/\<close> or \<open>//\<close>) and the components. \<open>splitroot\<close> is the method of that name;
  \<open>components\<close> is what \<open>parse_parts\<close> keeps of the rest: the pieces between the
  slashes that are neither empty nor \<open>.\<close>.
\<close>

type_synonym pure_path = "string \<times> string list"

definition splitroot :: "string \<Rightarrow> string \<times> string" where
  "splitroot part =
     (if part \<noteq> [] \<and> hd part = CHR ''/''
      then (if length (takeWhile (\<lambda>c. c = CHR ''/'') part) = 2 then ''//'' else ''/'',
            dropWhile (\<lambda>c. c = CHR ''/'') part)
      else ([], part))"

definition components :: "string \<Rightarrow> string list" where
  "components rel = filter (\<lambda>x. x \<noteq> [] \<and> x \<noteq> ''.'') (split_chr (CHR ''/'') rel)"

text \<open>
  \<open>p / part\<close> for a string, \<open>p / q\<close> for a path, \<open>Path(p, *parts)\<close> and \<open>Path(*parts)\<close>:
  a part that starts with a slash replaces what is to its left. Then \<open>p.parent\<close> and
  \<open>str(p)\<close>.
\<close>

definition truediv :: "pure_path \<Rightarrow> string \<Rightarrow> pure_path" where
  "truediv p part =
     (case splitroot part of
        (root, rel) \<Rightarrow>
          if root \<noteq> [] then (root, components rel) else (fst p, snd p @ components rel))"

definition truediv_path :: "pure_path \<Rightarrow> pure_path \<Rightarrow> pure_path" where
  "truediv_path p q = (if fst q \<noteq> [] then q else (fst p, snd p @ snd q))"

definition joinpath :: "pure_path \<Rightarrow> string list \<Rightarrow> pure_path" where
  "joinpath p parts = foldl truediv p parts"

definition Path :: "string list \<Rightarrow> pure_path" where
  "Path parts = joinpath ([], []) parts"

definition parent :: "pure_path \<Rightarrow> pure_path" where
  "parent p = (fst p, butlast (snd p))"

definition str_path :: "pure_path \<Rightarrow> string" where
  "str_path p =
     (if fst p = [] \<and> snd p = [] then ''.'' else fst p @ join_chr (CHR ''/'') (snd p))"

text \<open>
  How the system finds the entry that a path names: from the root of the tree (which is
  also the working directory, for a relative path) one component after the other, each
  of them looked up in a directory, \<open>..\<close> leading to the directory above (and from the
  root to the root). The result is the list of the names from the root down, as the
  functions of the file system take it.
\<close>

fun resolve :: "node \<Rightarrow> path \<Rightarrow> string list \<Rightarrow> error + path" where
  "resolve root cur [] = Inr cur"
| "resolve root cur (c # cs) =
     (case lookup root cur of
        None \<Rightarrow> Inl FileNotFoundError
      | Some (File b) \<Rightarrow> Inl NotADirectoryError
      | Some (Dir es) \<Rightarrow>
          if c = ''..'' then resolve root (butlast cur) cs else resolve root (cur @ [c]) cs)"

definition Path_lookup :: "node \<Rightarrow> pure_path \<Rightarrow> node option" where
  "Path_lookup root p =
     (case resolve root [] (snd p) of Inl e \<Rightarrow> None | Inr q \<Rightarrow> lookup root q)"

text \<open>
  \<open>Path.exists\<close>, \<open>Path.is_file\<close> and \<open>Path.is_dir\<close> (all three answer \<open>False\<close> for a
  path that cannot be resolved), \<open>shutil.rmtree\<close> and \<open>Path.unlink\<close>.
\<close>

definition Path_exists :: "node \<Rightarrow> pure_path \<Rightarrow> bool" where
  "Path_exists root p = (Path_lookup root p \<noteq> None)"

definition Path_is_file :: "node \<Rightarrow> pure_path \<Rightarrow> bool" where
  "Path_is_file root p = (case Path_lookup root p of Some (File b) \<Rightarrow> True | _ \<Rightarrow> False)"

definition Path_is_dir :: "node \<Rightarrow> pure_path \<Rightarrow> bool" where
  "Path_is_dir root p = (case Path_lookup root p of Some (Dir es) \<Rightarrow> True | _ \<Rightarrow> False)"

definition Path_rmtree :: "node \<Rightarrow> pure_path \<Rightarrow> error + node" where
  "Path_rmtree root p =
     (case resolve root [] (snd p) of Inl e \<Rightarrow> Inl e | Inr q \<Rightarrow> rmtree root q)"

definition Path_unlink :: "node \<Rightarrow> pure_path \<Rightarrow> error + node" where
  "Path_unlink root p =
     (case resolve root [] (snd p) of Inl e \<Rightarrow> Inl e | Inr q \<Rightarrow> unlink root q)"

text \<open>
  The fields of \<open>ProjectMetadata\<close> that the module reads. \<open>settings.CONF_SOURCE\<close> is the
  argument \<open>conf_source\<close> of the functions below.
\<close>

record project_metadata =
  source_dir :: pure_path
  package_name :: string
  project_path :: pure_path

record pipeline_artifacts =
  pipeline_dir :: pure_path
  pipeline_tests :: pure_path
  pipeline_conf :: pure_path

text \<open>\<open>str.capitalize\<close> on ASCII.\<close>

definition upper :: "char \<Rightarrow> char" where
  "upper c = (if in_range (CHR ''a'') (CHR ''z'') c then char_of (of_char c - (32 :: nat)) else c)"

definition lower :: "char \<Rightarrow> char" where
  "lower c = (if in_range (CHR ''A'') (CHR ''Z'') c then char_of (of_char c + (32 :: nat)) else c)"

definition capitalize :: "string \<Rightarrow> string" where
  "capitalize s = (case s of [] \<Rightarrow> [] | c # cs \<Rightarrow> upper c # map lower cs)"

text \<open>\<open>_get_artifacts_to_package\<close> and \<open>_get_pipeline_artifacts\<close>\<close>

definition get_artifacts_to_package ::
  "project_metadata \<Rightarrow> string \<Rightarrow> string \<Rightarrow> string
     \<Rightarrow> pure_path \<times> pure_path \<times> pure_path" where
  "get_artifacts_to_package project_metadata conf_source module_path env =
     (let package_dir = truediv (source_dir project_metadata) (package_name project_metadata);
          project_conf_path = truediv (project_path project_metadata) conf_source
      in (joinpath package_dir (split_chr (CHR ''.'') module_path),
          joinpath (parent package_dir) (''tests'' # split_chr (CHR ''.'') module_path),
          truediv project_conf_path env))"

definition get_pipeline_artifacts ::
  "project_metadata \<Rightarrow> string \<Rightarrow> string \<Rightarrow> string \<Rightarrow> pipeline_artifacts" where
  "get_pipeline_artifacts project_metadata conf_source pipeline_name env =
     (case get_artifacts_to_package project_metadata conf_source
             (''pipelines.'' @ pipeline_name) env of
        (a, b, c) \<Rightarrow> \<lparr>pipeline_dir = a, pipeline_tests = b, pipeline_conf = c\<rparr>)"

text \<open>
  The two patterns of \<open>Path.glob\<close> that \<open>delete_pipeline\<close> uses. For \<open>**\<close> the
  library (\<open>_RecursiveWildcardSelector\<close>) goes through the directories from the
  starting one down, a directory before the directories inside it and these in the order
  of their listing: \<open>walk\<close> gives them with their paths from the starting directory. In
  each of them the last part of the pattern then selects among the entries
  (\<open>_WildcardSelector\<close>): for \<open>"**/*/"\<close> the entries that are directories, for
  \<open>"**/*.py"\<close> the entries, of either kind, whose name ends in \<open>.py\<close>. A path that is
  not a directory has no matches. The paths that are found are the starting path with the
  names down to the entry added to it.
\<close>

fun walk :: "node \<Rightarrow> (path \<times> node) list"
and walk_list :: "(string \<times> node) list \<Rightarrow> (path \<times> node) list" where
  "walk (File b) = []"
| "walk (Dir es) = ([], Dir es) # walk_list es"
| "walk_list [] = []"
| "walk_list (e # es) = map (\<lambda>pn. (fst e # fst pn, snd pn)) (walk (snd e)) @ walk_list es"

definition scandir :: "node \<Rightarrow> (string \<times> node) list" where
  "scandir n = (case n of Dir es \<Rightarrow> es | File b \<Rightarrow> [])"

definition entry_is_dir :: "string \<times> node \<Rightarrow> bool" where
  "entry_is_dir e = (case snd e of Dir es \<Rightarrow> True | File b \<Rightarrow> False)"

definition glob_dirs :: "node \<Rightarrow> pure_path \<Rightarrow> pure_path list" where
  "glob_dirs root d =
     (case Path_lookup root d of
        Some (Dir es) \<Rightarrow>
          [(fst d, snd d @ fst starting_point @ [fst entry]).
             starting_point \<leftarrow> walk (Dir es),
             entry \<leftarrow> scandir (snd starting_point),
             entry_is_dir entry]
      | _ \<Rightarrow> [])"

definition glob_py :: "node \<Rightarrow> pure_path \<Rightarrow> pure_path list" where
  "glob_py root d =
     (case Path_lookup root d of
        Some (Dir es) \<Rightarrow>
          [(fst d, snd d @ fst starting_point @ [fst entry]).
             starting_point \<leftarrow> walk (Dir es),
             entry \<leftarrow> scandir (snd starting_point),
             suffix ''.py'' (fst entry)]
      | _ \<Rightarrow> [])"

text \<open>\<open>_echo_deletion_warning\<close>, called with \<open>directories=...\<close> and \<open>files=...\<close>.\<close>

definition echo_deletion_warning ::
  "string \<Rightarrow> (string \<times> pure_path list) list \<Rightarrow> state \<Rightarrow> state" where
  "echo_deletion_warning message paths st =
     (let paths = filter (\<lambda>kv. snd kv \<noteq> []) paths;
          st1 = (if paths \<noteq> [] then echo (Message message) st else st)
      in foldl (\<lambda>st kv. echo (PathList (map str_path (snd kv)))
                          (echo (Message ([CHR 0x0A] @ capitalize (fst kv) @ '':'')) st))
           st1 paths)"

text \<open>
  \<open>_delete_artifacts\<close>: a failure of the removal is raised again as a \<open>KedroCliError\<close>
  made from the exception.
\<close>

fun delete_artifacts :: "pure_path list \<Rightarrow> state \<Rightarrow> outcome" where
  "delete_artifacts [] st = (None, st)"
| "delete_artifacts (artifact # rest) st =
     (let st1 = echo (Deleting (str_path artifact)) st
      in case (if Path_is_dir (fs st1) artifact then Path_rmtree (fs st1) artifact
               else Path_unlink (fs st1) artifact) of
           Inl exc \<Rightarrow> (Some (KedroCliErrorFrom exc), echo FAILED st1)
         | Inr fs2 \<Rightarrow> delete_artifacts rest (echo OK (st1\<lparr>fs := fs2\<rparr>)))"

text \<open>The messages of the errors that \<open>delete_pipeline\<close> raises.\<close>

definition quoted :: "string \<Rightarrow> string" where
  "quoted s = [CHR 0x27] @ s @ [CHR 0x27]"

definition unable_to_locate :: "string \<Rightarrow> string" where
  "unable_to_locate env =
     ''Unable to locate environment '' @ quoted env
       @ ''. Make sure it exists in the project configuration.''"

definition child_pipeline_message :: "pure_path \<Rightarrow> pure_path \<Rightarrow> string" where
  "child_pipeline_message dir_to_delete child_dir =
     ''Cannot delete the pipeline '' @ quoted (str_path dir_to_delete)
       @ '' because it contains a child pipeline.''
       @ '' Please delete the child pipeline in '' @ quoted (str_path child_dir)
       @ '' before deleting this one.''"

text \<open>
  \<open>delete_pipeline\<close>, after the command line has been parsed: \<open>env_arg\<close> is \<open>None\<close>
  when the option is absent and \<open>env_or_base\<close> is \<open>env or "base"\<close>, \<open>yes\<close> is the flag
  \<open>--yes\<close>, and \<open>answer\<close> is what the user answers if \<open>click.confirm\<close> asks. The
  nested \<open>for\<close> loops that look for a child pipeline raise at the first \<open>.py\<close> entry
  they meet: the list comprehension lists what they would meet, in their order.
\<close>

definition env_or_base :: "string option \<Rightarrow> string" where
  "env_or_base env_arg =
     (case env_arg of None \<Rightarrow> ''base'' | Some e \<Rightarrow> if e = [] then ''base'' else e)"

definition delete_pipeline ::
  "project_metadata \<Rightarrow> string \<Rightarrow> string \<Rightarrow> string option \<Rightarrow> bool \<Rightarrow> bool \<Rightarrow> state \<Rightarrow> outcome" where
  "delete_pipeline metadata conf_source name_arg env_arg yes answer st =
     (let package_dir = truediv (source_dir metadata) (package_name metadata);
          project_conf_path = truediv (project_path metadata) conf_source;
          env = env_or_base env_arg
      in if \<not> Path_exists (fs st) (truediv project_conf_path env)
         then (Some (KedroCliError (unable_to_locate env)), st)
         else
           let artifacts = get_pipeline_artifacts metadata conf_source name_arg env;
               conf_name = snd (split_on_last_dot name_arg);
               files_to_delete =
                 [truediv_path (pipeline_conf artifacts) filepath.
                    confdir \<leftarrow> [''parameters'', ''catalog''],
                    filepath \<leftarrow> [Path [confdir @ ''_'' @ conf_name @ ''.yml''],
                                truediv (Path [confdir]) (conf_name @ ''.yml'')],
                    Path_is_file (fs st) (truediv_path (pipeline_conf artifacts) filepath)];
               dirs_to_delete =
                 filter (Path_is_dir (fs st)) [pipeline_dir artifacts, pipeline_tests artifacts]
           in case [(dir_to_delete, py_file).
                      dir_to_delete \<leftarrow> dirs_to_delete,
                      subdir \<leftarrow> glob_dirs (fs st) dir_to_delete,
                      py_file \<leftarrow> glob_py (fs st) subdir] of
                found # others \<Rightarrow>
                  (Some (KedroCliError (child_pipeline_message (fst found) (parent (snd found)))),
                   st)
              | [] \<Rightarrow>
                  if files_to_delete = [] \<and> dirs_to_delete = []
                  then (Some (KedroCliError (''Pipeline '' @ quoted name_arg @ '' not found.'')), st)
                  else
                    let st1 = (if \<not> yes
                               then echo Newline
                                      (echo (Confirm (''Are you sure you want to delete pipeline ''
                                                        @ quoted name_arg @ ''?''))
                                         (echo Newline
                                            (echo_deletion_warning
                                               ''The following paths will be removed:''
                                               [(''directories'', dirs_to_delete),
                                                (''files'', files_to_delete)] st)))
                               else st);
                        yes = (if \<not> yes then answer else yes)
                    in if \<not> yes
                       then (Some (KedroCliError ''Deletion aborted!''), st1)
                       else (case delete_artifacts (files_to_delete @ dirs_to_delete) st1 of
                               (Some e, st2) \<Rightarrow> (Some e, st2)
                             | (None, st2) \<Rightarrow>
                                (None,
                                 echo (Message ([CHR 0x0A] @ ''If you added the pipeline ''
                                           @ quoted name_arg
                                           @ '' to 'register_pipelines()' in ''
                                           @ quoted (str_path (truediv package_dir
                                                                 ''pipeline_registry.py''))
                                           @ '', you will need to remove it.''))
                                   (echo (Message ([CHR 0x0A] @ ''Pipeline '' @ quoted name_arg
                                             @ '' was successfully deleted.''))
                                      st2))))"

section \<open>Example trees\<close>

text \<open>
  The scenario of the specification: the source holds \<open>a.txt\<close> and \<open>sub/b.txt\<close>, the
  target holds its own \<open>a.txt\<close>.
\<close>

definition fs_scenario :: node where
  "fs_scenario =
     Dir [(''src'', Dir [(''a.txt'', File ''1''), (''sub'', Dir [(''b.txt'', File ''2'')])]),
          (''tgt'', Dir [(''a.txt'', File ''0'')])]"

text \<open>A source directory \<open>d\<close> that meets a regular file \<open>d\<close> in the target.\<close>

definition fs_dir_meets_file :: node where
  "fs_dir_meets_file =
     Dir [(''src'', Dir [(''d'', Dir [(''g.txt'', File ''new'')]), (''f.txt'', File ''1'')]),
          (''tgt'', Dir [(''d'', File ''old''), (''f.txt'', File ''0'')])]"

text \<open>The same file \<open>sub/b.txt\<close> in the source and in the target.\<close>

definition fs_nested :: node where
  "fs_nested =
     Dir [(''src'', Dir [(''sub'', Dir [(''b.txt'', File ''2'')])]),
          (''tgt'', Dir [(''sub'', Dir [(''b.txt'', File ''0'')])])]"

text \<open>A source with a directory that holds no file, and an empty target.\<close>

definition fs_empty_dir :: node where
  "fs_empty_dir =
     Dir [(''src'', Dir [(''a.txt'', File ''1''), (''empty'', Dir [])]),
          (''tgt'', Dir [])]"

text \<open>
  A source whose second item cannot be copied: the directory \<open>d\<close> of the source meets
  the regular file \<open>d\<close> of the target, and the call has \<open>overwrite\<close> set.
\<close>

definition fs_failing :: node where
  "fs_failing =
     Dir [(''src'', Dir [(''a.txt'', File ''1''), (''d'', Dir [(''g.txt'', File ''2'')]),
                         (''z.txt'', File ''3'')]),
          (''tgt'', Dir [(''d'', File ''old'')])]"

text \<open>
  A project in which a pipeline has just been generated: the scratch directories
  \<open>tests\<close> and \<open>config\<close> are under the new pipeline; the project's \<open>tests\<close> tree already
  has a regular file where the tests of the pipeline would go.
\<close>

definition fs_project :: node where
  "fs_project =
     Dir [(''src'',
            Dir [(''pkg'',
                   Dir [(''pipelines'',
                          Dir [(''dp'',
                                 Dir [(''__init__.py'', File ''i''),
                                      (''tests'', Dir [(''test_pipeline.py'', File ''t'')]),
                                      (''config'', Dir [(''parameters_dp.yml'', File ''p'')])])])]),
                 (''tests'', Dir [(''pipelines'', File ''in the way'')])]),
          (''conf'', Dir [(''base'', Dir [])])]"

text \<open>
  The project after \<open>_copy_pipeline_tests\<close>, which fails on the regular file in the way
  and removes the scratch \<open>tests\<close>; and the project after \<open>_copy_pipeline_configs\<close>,
  which copies the parameters file and removes the scratch \<open>config\<close>.
\<close>

definition fs_project_after_tests :: node where
  "fs_project_after_tests =
     Dir [(''src'',
            Dir [(''pkg'',
                   Dir [(''pipelines'',
                          Dir [(''dp'',
                                 Dir [(''__init__.py'', File ''i''),
                                      (''config'', Dir [(''parameters_dp.yml'', File ''p'')])])])]),
                 (''tests'', Dir [(''pipelines'', File ''in the way'')])]),
          (''conf'', Dir [(''base'', Dir [])])]"

definition fs_project_after_configs :: node where
  "fs_project_after_configs =
     Dir [(''src'',
            Dir [(''pkg'',
                   Dir [(''pipelines'',
                          Dir [(''dp'',
                                 Dir [(''__init__.py'', File ''i''),
                                      (''tests'', Dir [(''test_pipeline.py'', File ''t'')])])])]),
                 (''tests'', Dir [(''pipelines'', File ''in the way'')])]),
          (''conf'', Dir [(''base'', Dir [(''parameters_dp.yml'', File ''p'')])])]"

text \<open>The tree \<open>fs_failing\<close> after the call that fails in \<open>d\<close>.\<close>

definition fs_failing_after :: node where
  "fs_failing_after =
     Dir [(''src'', Dir [(''a.txt'', File ''1''), (''d'', Dir [(''g.txt'', File ''2'')]),
                         (''z.txt'', File ''3'')]),
          (''tgt'', Dir [(''d'', File ''old''), (''a.txt'', File ''1'')])]"



text \<open>The tree \<open>fs_empty_dir\<close> after the merge.\<close>

definition fs_empty_dir_after :: node where
  "fs_empty_dir_after =
     Dir [(''src'', Dir [(''a.txt'', File ''1''), (''empty'', Dir [])]),
          (''tgt'', Dir [(''a.txt'', File ''1'')])]"

text \<open>
  A project whose pipeline \<open>dp\<close> holds the directory \<open>inner\<close> with a Python file in it.
\<close>

definition fs_child :: node where
  "fs_child =
     Dir [(''proj'',
            Dir [(''conf'', Dir [(''base'', Dir [(''parameters_dp.yml'', File ''p'')])]),
                 (''src'',
                   Dir [(''pkg'',
                          Dir [(''pipelines'',
                                 Dir [(''dp'',
                                        Dir [(''__init__.py'', File ''i''),
                                             (''pipeline.py'', File ''p''),
                                             (''inner'', Dir [(''nodes.py'', File ''n'')])])])]),
                        (''tests'',
                          Dir [(''pipelines'',
                                 Dir [(''dp'', Dir [(''test_pipeline.py'', File ''t'')])])])])])]"

text \<open>
  The same pipeline in a project whose configuration has the environment \<open>local\<close> and
  no environment \<open>base\<close>.
\<close>

definition fs_child_no_env :: node where
  "fs_child_no_env =
     Dir [(''proj'',
            Dir [(''conf'', Dir [(''local'', Dir [])]),
                 (''src'',
                   Dir [(''pkg'',
                          Dir [(''pipelines'',
                                 Dir [(''dp'',
                                        Dir [(''__init__.py'', File ''i''),
                                             (''pipeline.py'', File ''p''),
                                             (''inner'', Dir [(''nodes.py'', File ''n'')])])])])])])]"

text \<open>The metadata of these projects.\<close>

definition metadata_proj :: project_metadata where
  "metadata_proj =
     \<lparr>source_dir = (''/'', [''proj'', ''src'']), package_name = ''pkg'',
      project_path = (''/'', [''proj''])\<rparr>"

section \<open>Properties of the string functions\<close>

lemma rsplit_one_no_sep: "sep \<notin> set s \<Longrightarrow> rsplit sep (Suc 0) s = [s]"
  by simp

lemma rsplit_one_sep:
  "sep \<in> set s \<Longrightarrow>
     rsplit sep (Suc 0) s =
       [rev (tl (dropWhile (\<lambda>c. c \<noteq> sep) (rev s))), rev (takeWhile (\<lambda>c. c \<noteq> sep) (rev s))]"
  by simp

lemma cut_at_last:
  assumes "sep \<in> set s"
  shows "rev (tl (dropWhile (\<lambda>c. c \<noteq> sep) (rev s))) @ [sep]
           @ rev (takeWhile (\<lambda>c. c \<noteq> sep) (rev s)) = s"
proof -
  let ?d = "dropWhile (\<lambda>c. c \<noteq> sep) (rev s)"
  let ?t = "takeWhile (\<lambda>c. c \<noteq> sep) (rev s)"
  from assms have ne: "?d \<noteq> []" by simp
  then have "hd ?d = sep" using hd_dropWhile [of "\<lambda>c. c \<noteq> sep" "rev s"] by simp
  with ne have d: "?d = sep # tl ?d" by (cases ?d) simp_all
  have "rev s = ?t @ ?d" by simp
  then have "rev s = ?t @ sep # tl ?d" using d by simp
  then have "rev (rev s) = rev (?t @ sep # tl ?d)" by (rule arg_cong)
  then show ?thesis by simp
qed

lemma last_part_no_sep: "sep \<notin> set (rev (takeWhile (\<lambda>c. c \<noteq> sep) (rev s)))"
proof
  assume "sep \<in> set (rev (takeWhile (\<lambda>c. c \<noteq> sep) (rev s)))"
  then have "sep \<in> set (takeWhile (\<lambda>c. c \<noteq> sep) (rev s))" by simp
  then show False by (auto dest: set_takeWhileD)
qed

text \<open>
  C10. \<open>_split_on_last_dot\<close> returns \<open>("", s)\<close> for a string without a dot; for a string
  with a dot it returns \<open>(prefix, last)\<close> where \<open>last\<close> has no dot and
  \<open>prefix + "." + last\<close> is the input, so the cut is at the last dot.
\<close>

theorem split_on_last_dot_spec:
  "(CHR ''.'' \<notin> set s \<longrightarrow> split_on_last_dot s = ('''', s)) \<and>
   (CHR ''.'' \<in> set s \<longrightarrow>
      CHR ''.'' \<notin> set (snd (split_on_last_dot s)) \<and>
      fst (split_on_last_dot s) @ ''.'' @ snd (split_on_last_dot s) = s)"
proof (cases "CHR ''.'' \<in> set s")
  case True
  have parts: "rsplit (CHR ''.'') 1 s =
      [rev (tl (dropWhile (\<lambda>c. c \<noteq> CHR ''.'') (rev s))),
       rev (takeWhile (\<lambda>c. c \<noteq> CHR ''.'') (rev s))]"
    using rsplit_one_sep [OF True] by simp
  have "split_on_last_dot s =
      (rev (tl (dropWhile (\<lambda>c. c \<noteq> CHR ''.'') (rev s))),
       rev (takeWhile (\<lambda>c. c \<noteq> CHR ''.'') (rev s)))"
    unfolding split_on_last_dot_def parts by simp
  then show ?thesis
    using True cut_at_last [OF True] last_part_no_sep [of "CHR ''.''" s] by simp
next
  case False
  then have "rsplit (CHR ''.'') 1 s = [s]"
    using rsplit_one_no_sep [of "CHR ''.''" s] by simp
  then show ?thesis
    using False by (simp add: split_on_last_dot_def)
qed

theorem split_on_last_dot_spec_witness:
  "split_on_last_dot ''mypipeline'' = ('''', ''mypipeline'') \<and>
   split_on_last_dot ''path.to.pipeline'' = (''path.to'', ''pipeline'')"
proof -
  have a: "CHR ''.'' \<notin> set ''mypipeline''" by simp
  have b: "CHR ''.'' \<in> set ''path.to.pipeline''" by simp
  have 1: "split_on_last_dot ''mypipeline'' = ('''', ''mypipeline'')"
    using split_on_last_dot_spec [of "''mypipeline''"] a by blast
  have 2: "split_on_last_dot ''path.to.pipeline'' = (''path.to'', ''pipeline'')"
    by (simp add: split_on_last_dot_def)
  have "fst (split_on_last_dot ''path.to.pipeline'') @ ''.''
          @ snd (split_on_last_dot ''path.to.pipeline'') = ''path.to.pipeline''"
    using split_on_last_dot_spec [of "''path.to.pipeline''"] b by blast
  with 1 2 show ?thesis by simp
qed

section \<open>Properties of the name validation\<close>

lemma nullable_lang: "nullable r \<longleftrightarrow> [] \<in> lang r"
  by (induction r) (auto simp: conc_def intro: star.intros)

lemma star_cons:
  "c # s \<in> star A \<longleftrightarrow> (\<exists>u v. s = u @ v \<and> c # u \<in> A \<and> v \<in> star A)"
proof
  assume "c # s \<in> star A"
  then show "\<exists>u v. s = u @ v \<and> c # u \<in> A \<and> v \<in> star A"
  proof (induction "c # s" rule: star.induct)
    case (star_step u v)
    show ?case
    proof (cases u)
      case Nil
      with star_step show ?thesis by simp
    next
      case (Cons a u')
      with star_step(1,2,4) show ?thesis by auto
    qed
  qed
next
  assume "\<exists>u v. s = u @ v \<and> c # u \<in> A \<and> v \<in> star A"
  then obtain u v where "s = u @ v" "c # u \<in> A" "v \<in> star A" by blast
  then show "c # s \<in> star A" using star_step [of "c # u" A v] by simp
qed

lemma conc_cons:
  "c # s \<in> conc A B \<longleftrightarrow>
     ([] \<in> A \<and> c # s \<in> B) \<or> (\<exists>u v. s = u @ v \<and> c # u \<in> A \<and> v \<in> B)"
  by (auto simp: conc_def Cons_eq_append_conv)

lemma deriv_lang: "s \<in> lang (deriv c r) \<longleftrightarrow> c # s \<in> lang r"
proof (induction r arbitrary: s)
  case (Cat r1 r2)
  then show ?case
    by (auto simp: conc_cons nullable_lang) (auto simp: conc_def)
next
  case (Star r)
  then show ?case
    by (auto simp: star_cons) (auto simp: conc_def)
qed auto

lemma matches_lang: "matches r s \<longleftrightarrow> s \<in> lang r"
  by (induction s arbitrary: r) (simp_all add: nullable_lang deriv_lang)


lemma split_chr_not_Nil: "split_chr sep s \<noteq> []"
  by (induction s) auto

lemma split_chr_no_sep: "sep \<notin> set s \<Longrightarrow> split_chr sep s = [s]"
  by (induction s) auto

lemma split_chr_append:
  "sep \<notin> set u \<Longrightarrow> split_chr sep (u @ sep # v) = u # split_chr sep v"
  by (induction u) auto

lemma join_split_chr: "join_chr sep (split_chr sep s) = s"
proof (induction s)
  case Nil
  show ?case by simp
next
  case (Cons c s)
  obtain x xs where sp: "split_chr sep s = x # xs"
    using split_chr_not_Nil [of sep s] by (cases "split_chr sep s") auto
  show ?case
  proof (cases "c = sep")
    case True
    with Cons sp show ?thesis by simp
  next
    case False
    with Cons sp show ?thesis by (cases xs) auto
  qed
qed

lemmas char_class_defs =
  word_char_def latin1_alnum_def letter_or_underscore_def ascii_letter_def ascii_digit_def
  in_range_def

lemma not_word_dot: "\<not> word_char (CHR ''.'')"
  by (simp add: char_class_defs)

lemma star_class: "star {[c] | c. P c} = {u. \<forall>c \<in> set u. P c}"
proof (intro equalityI subsetI)
  fix u assume "u \<in> star {[c] | c. P c}"
  then show "u \<in> {u. \<forall>c \<in> set u. P c}"
    by (induction rule: star.induct) auto
next
  fix u assume "u \<in> {u. \<forall>c \<in> set u. P c}"
  then have "\<forall>c \<in> set u. P c" by simp
  then show "u \<in> star {[c] | c. P c}"
  proof (induction u)
    case Nil
    show ?case by (rule star_nil)
  next
    case (Cons a u)
    then have "[a] \<in> {[c] | c. P c}" "u \<in> star {[c] | c. P c}" by auto
    then have "[a] @ u \<in> star {[c] | c. P c}" by (rule star_step)
    then show ?case by simp
  qed
qed

lemma lang_Plus_Class: "lang (Plus (Class P)) = {u. u \<noteq> [] \<and> (\<forall>c \<in> set u. P c)}"
proof -
  have "lang (Plus (Class P)) = conc {[c] | c. P c} {u. \<forall>c \<in> set u. P c}"
    by (simp add: Plus_def star_class)
  also have "\<dots> = {u. u \<noteq> [] \<and> (\<forall>c \<in> set u. P c)}"
  proof (intro equalityI subsetI)
    fix u assume "u \<in> conc {[c] | c. P c} {u. \<forall>c \<in> set u. P c}"
    then show "u \<in> {u. u \<noteq> [] \<and> (\<forall>c \<in> set u. P c)}" by (auto simp: conc_def)
  next
    fix u assume "u \<in> {u. u \<noteq> [] \<and> (\<forall>c \<in> set u. P c)}"
    then obtain a v where "u = [a] @ v" "P a" "\<forall>c \<in> set v. P c" by (cases u) auto
    then show "u \<in> conc {[c] | c. P c} {u. \<forall>c \<in> set u. P c}"
      unfolding conc_def by blast
  qed
  finally show ?thesis .
qed

lemma folders_segments: "s \<in> folders \<longleftrightarrow> segments_ok s"
proof
  let ?W = "{u. u \<noteq> [] \<and> (\<forall>c \<in> set u. word_char c)}"
  let ?D = "conc ?W {[c] | c. c = CHR ''.''}"
  assume "s \<in> folders"
  then obtain d v where s: "s = d @ v" and d: "d \<in> star ?D" and v: "v \<in> ?W"
    by (auto simp: folders_def lang_Plus_Class conc_def)
  from d show "segments_ok s" unfolding s
  proof (induction rule: star.induct)
    case star_nil
    from v have "CHR ''.'' \<notin> set v" using not_word_dot by auto
    then have "split_chr (CHR ''.'') v = [v]" by (rule split_chr_no_sep)
    with v show ?case by (simp add: segments_ok_def)
  next
    case (star_step u w)
    from star_step(1) obtain x where u: "u = x @ ''.''" and x: "x \<in> ?W"
      by (auto simp: conc_def)
    from x have "CHR ''.'' \<notin> set x" using not_word_dot by auto
    then have "split_chr (CHR ''.'') (x @ CHR ''.'' # (w @ v)) = x # split_chr (CHR ''.'') (w @ v)"
      by (rule split_chr_append)
    with x star_step(3) show ?case by (simp add: u segments_ok_def)
  qed
next
  let ?W = "{u. u \<noteq> [] \<and> (\<forall>c \<in> set u. word_char c)}"
  let ?D = "conc ?W {[c] | c. c = CHR ''.''}"
  have gen: "segs \<noteq> [] \<Longrightarrow> \<forall>seg \<in> set segs. seg \<in> ?W \<Longrightarrow>
      \<exists>d v. join_chr (CHR ''.'') segs = d @ v \<and> d \<in> star ?D \<and> v \<in> ?W" for segs
  proof (induction segs)
    case Nil
    then show ?case by simp
  next
    case (Cons x xs)
    show ?case
    proof (cases xs)
      case Nil
      with Cons(3) have "join_chr (CHR ''.'') (x # xs) = [] @ x \<and> [] \<in> star ?D \<and> x \<in> ?W"
        by (simp add: star_nil)
      then show ?thesis by blast
    next
      case (Cons y ys)
      with Cons.IH Cons.prems obtain d v where j: "join_chr (CHR ''.'') xs = d @ v"
        and d: "d \<in> star ?D" and v: "v \<in> ?W" by auto
      from Cons.prems have "x @ ''.'' \<in> ?D" by (auto simp: conc_def)
      then have "(x @ ''.'') @ d \<in> star ?D" using d by (rule star_step)
      moreover have "join_chr (CHR ''.'') (x # xs) = ((x @ ''.'') @ d) @ v"
        using j Cons by simp
      ultimately show ?thesis using v by blast
    qed
  qed
  assume "segments_ok s"
  then have "\<forall>seg \<in> set (split_chr (CHR ''.'') s). seg \<in> ?W" by (simp add: segments_ok_def)
  from gen [OF split_chr_not_Nil this] obtain d v
    where "s = d @ v" "d \<in> star ?D" "v \<in> ?W" by (auto simp: join_split_chr)
  then show "s \<in> folders"
    by (auto simp: folders_def lang_Plus_Class conc_def)
qed


lemma re_match_Never: "\<not> re_match Never s"
  by (induction s) auto

lemma re_match_Empty: "re_match Empty s"
  by (cases s) auto

lemma re_match_Class: "re_match (Class P) s \<longleftrightarrow> s \<noteq> [] \<and> P (hd s)"
  by (cases s) (auto simp: re_match_Never re_match_Empty)

lemma conc_class:
  "s \<in> conc {[c] | c. P c} B \<longleftrightarrow> (\<exists>c t. s = c # t \<and> P c \<and> t \<in> B)"
proof
  assume "s \<in> conc {[c] | c. P c} B"
  then show "\<exists>c t. s = c # t \<and> P c \<and> t \<in> B" by (auto simp: conc_def)
next
  assume "\<exists>c t. s = c # t \<and> P c \<and> t \<in> B"
  then obtain c t where "s = [c] @ t" "P c" "t \<in> B" by auto
  then show "s \<in> conc {[c] | c. P c} B" unfolding conc_def by blast
qed

lemma length_hd_le_join: "xs \<noteq> [] \<Longrightarrow> length (hd xs) \<le> length (join_chr sep xs)"
  by (cases "(sep, xs)" rule: join_chr.cases) auto

lemma matches_name_pattern:
  "matches (name_pattern) s \<longleftrightarrow>
     s \<noteq> [] \<and> word_char (hd s) \<and> segments_ok (tl s)"
proof -
  have "lang (name_pattern) = conc {[c] | c. word_char c} (folders)"
    by (simp add: name_pattern_def folders_def)
  then have "matches (name_pattern) s \<longleftrightarrow>
      (\<exists>c t. s = c # t \<and> word_char c \<and> t \<in> folders)"
    by (simp add: matches_lang conc_class)
  then show ?thesis by (cases s) (auto simp: folders_segments)
qed

lemma segments_ok_Cons:
  "word_char c \<Longrightarrow>
     segments_ok t \<longleftrightarrow>
       segments_ok (c # t) \<and> 2 \<le> length (hd (split_chr (CHR ''.'') (c # t)))"
proof -
  assume w: "word_char c"
  then have ne: "c \<noteq> CHR ''.''" using not_word_dot by auto
  obtain x xs where sp: "split_chr (CHR ''.'') t = x # xs"
    using split_chr_not_Nil [of "CHR ''.''" t] by (cases "split_chr (CHR ''.'') t") auto
  show ?thesis using w ne by (cases x) (auto simp: segments_ok_def sp)
qed

lemma segments_ok_hd: "segments_ok (c # t) \<Longrightarrow> word_char c"
proof -
  assume a: "segments_ok (c # t)"
  obtain x xs where sp: "split_chr (CHR ''.'') t = x # xs"
    using split_chr_not_Nil [of "CHR ''.''" t] by (cases "split_chr (CHR ''.'') t") auto
  show ?thesis
  proof (cases "c = CHR ''.''")
    case True
    with a show ?thesis by (simp add: segments_ok_def)
  next
    case False
    with a sp show ?thesis by (simp add: segments_ok_def)
  qed
qed

lemma matches_name_pattern_rules:
  "matches (name_pattern) s \<longleftrightarrow>
     s \<noteq> [] \<and> segments_ok s \<and> 2 \<le> length (hd (split_chr (CHR ''.'') s))"
proof (cases s)
  case Nil
  then show ?thesis using matches_name_pattern [of s] by simp
next
  case (Cons c t)
  show ?thesis
  proof (cases "word_char c")
    case True
    from segments_ok_Cons [OF True, of t] True show ?thesis
      unfolding matches_name_pattern Cons by auto
  next
    case False
    then show ?thesis
      unfolding matches_name_pattern Cons using segments_ok_hd [of c t] by auto
  qed
qed

text \<open>
  What \<open>_assert_pkg_name_ok\<close> accepts, for a name that does not end in a newline: the
  names that follow the naming rules and whose first folder name has at least 2
  characters.
\<close>

lemma assert_pkg_name_ok_accepts:
  assumes "\<not> (s \<noteq> [] \<and> last s = CHR 0x0A)"
  shows "assert_pkg_name_ok s = Inr () \<longleftrightarrow>
           pkg_name_rules s \<and> 2 \<le> length (hd (split_chr (CHR ''.'') s))"
proof -
  have d: "re_match_dollar (name_pattern) s = matches (name_pattern) s"
    using assms by (auto simp: re_match_dollar_def)
  have "assert_pkg_name_ok s = Inr () \<longleftrightarrow>
      re_match (Class letter_or_underscore) s \<and> 2 \<le> length s
        \<and> re_match_dollar (name_pattern) s"
    by (simp add: assert_pkg_name_ok_def Let_def name_pattern_def not_less)
  also have "\<dots> \<longleftrightarrow> s \<noteq> [] \<and> letter_or_underscore (hd s) \<and> 2 \<le> length s
        \<and> segments_ok s \<and> 2 \<le> length (hd (split_chr (CHR ''.'') s))"
    unfolding d matches_name_pattern_rules re_match_Class by blast
  also have "\<dots> \<longleftrightarrow> pkg_name_rules s \<and> 2 \<le> length (hd (split_chr (CHR ''.'') s))"
    by (auto simp: pkg_name_rules_def)
  finally show ?thesis .
qed

text \<open>Three names evaluated: two that are accepted and one that is too short.\<close>

lemma assert_pkg_name_ok_eval:
  "assert_pkg_name_ok ''path.to.pipeline'' = Inr ()"
  "assert_pkg_name_ok ''ab.c'' = Inr ()"
  "assert_pkg_name_ok ''a'' =
     Inl (KedroCliError ([CHR 0x27] @ ''a'' @ [CHR 0x27] @ '' is not a valid Python package name.''
            @ '' It must be at least 2 characters long.''))"
  by (simp_all add: assert_pkg_name_ok_def name_pattern_def re_match_dollar_def Plus_def
        char_class_defs)

text \<open>
  C4. \<open>_assert_pkg_name_ok\<close> is claimed to accept exactly the names that follow the
  naming rules. The name \<open>a.b\<close> follows them (it starts with a letter, has 3 characters
  and is two folder names of letters separated by a dot) and is rejected, with the message
  that it must contain only letters, digits and underscores; the name made of \<open>ab\<close> and a
  newline does not follow them and is accepted.
\<close>

theorem assert_pkg_name_ok_disagrees_with_rules:
  "pkg_name_rules ''a.b'' \<and>
   assert_pkg_name_ok ''a.b'' =
     Inl (KedroCliError ([CHR 0x27] @ ''a.b'' @ [CHR 0x27] @ '' is not a valid Python package name.''
            @ '' It must contain only letters, digits, and/or underscores.''
            @ '' Folders should be separated by '' @ [CHR 0x27] @ ''.'' @ [CHR 0x27])) \<and>
   \<not> pkg_name_rules (''ab'' @ [CHR 0x0A]) \<and>
   assert_pkg_name_ok (''ab'' @ [CHR 0x0A]) = Inr ()"
  by (simp add: pkg_name_rules_def segments_ok_def assert_pkg_name_ok_def name_pattern_def
        re_match_dollar_def Plus_def char_class_defs)

section \<open>Properties of the file system operations\<close>

lemma lookup_Dir_Cons:
  "lookup (Dir es) (x # p) = (case map_of es x of None \<Rightarrow> None | Some c \<Rightarrow> lookup c p)"
  by simp

lemma lookup_File: "lookup (File b) q = (if q = [] then Some (File b) else None)"
  by (cases q) simp_all

lemma lookup_empty_dir: "q \<noteq> [] \<Longrightarrow> lookup (Dir []) q = None"
  by (cases q) simp_all

lemma lookup_append:
  "lookup n (p @ q) = (case lookup n p of None \<Rightarrow> None | Some c \<Rightarrow> lookup c q)"
  by (induction p arbitrary: n) (auto split: option.splits)

lemma mkdir_lookup_other:
  "mkdir n p = Inr n' \<Longrightarrow> \<not> prefix q p \<Longrightarrow> lookup n' q = lookup n q"
proof (induction n p arbitrary: n' q rule: mkdir.induct)
  case (4 es x p)
  from "4.prems"(1) obtain c' where
    c': "mkdir (case map_of es x of None \<Rightarrow> Dir [] | Some c \<Rightarrow> c) p = Inr c'"
    and n': "n' = Dir (AList.update x c' es)"
    by (auto split: sum.splits)
  from "4.prems"(2) obtain y q' where q: "q = y # q'" by (cases q) auto
  show ?case
  proof (cases "y = x")
    case False
    then show ?thesis by (simp add: q n' update_conv')
  next
    case True
    with "4.prems"(2) q have np: "\<not> prefix q' p" by simp
    then have "q' \<noteq> []" by auto
    from "4.IH" [OF c' np] this show ?thesis
      by (auto simp: q True n' update_conv' lookup_empty_dir split: option.splits)
  qed
qed auto

lemma mkdir_is_dir_prefix:
  "mkdir n p = Inr n' \<Longrightarrow> prefix q p \<Longrightarrow> is_dir n' q"
proof (induction n p arbitrary: n' q rule: mkdir.induct)
  case (4 es x p)
  from "4.prems"(1) obtain c' where
    c': "mkdir (case map_of es x of None \<Rightarrow> Dir [] | Some c \<Rightarrow> c) p = Inr c'"
    and n': "n' = Dir (AList.update x c' es)"
    by (auto split: sum.splits)
  show ?case
  proof (cases q)
    case Nil
    then show ?thesis by (simp add: n' is_dir_def)
  next
    case (Cons y q')
    with "4.prems"(2) have "y = x" "prefix q' p" by auto
    with "4.IH" [OF c'] show ?thesis
      by (simp add: Cons n' is_dir_def update_conv')
  qed
qed (auto simp: is_dir_def)

lemma mkdir_existing: "is_dir n p \<Longrightarrow> mkdir n p = Inr n"
proof (induction n p rule: mkdir.induct)
  case (4 es x p)
  then obtain c where c: "map_of es x = Some c" and "is_dir c p"
    by (auto simp: is_dir_def split: option.splits)
  with "4.IH" have "mkdir c p = Inr c" by simp
  moreover from c have "AList.update x c es = es"
    by (simp add: update_triv)
  ultimately show ?case by (simp add: c)
qed (auto simp: is_dir_def)

lemma mkdir_succeeds_iff:
  "(\<exists>n'. mkdir n p = Inr n') \<longleftrightarrow> (\<forall>q. prefix q p \<longrightarrow> \<not> is_file n q)"
proof (induction n p rule: mkdir.induct)
  case (1 es)
  then show ?case by (simp add: is_file_def)
next
  case (2 b)
  then show ?case by (auto simp: is_file_def)
next
  case (3 b x p)
  have "prefix [] (x # p) \<and> is_file (File b) []" by (simp add: is_file_def)
  then have "\<exists>q. prefix q (x # p) \<and> is_file (File b) q" by (rule exI)
  then show ?case by simp
next
  case (4 es x p)
  let ?c = "case map_of es x of None \<Rightarrow> Dir [] | Some c \<Rightarrow> c"
  have "(\<exists>n'. mkdir (Dir es) (x # p) = Inr n') \<longleftrightarrow> (\<exists>c'. mkdir ?c p = Inr c')"
    by (auto split: sum.splits)
  also have "\<dots> \<longleftrightarrow> (\<forall>q. prefix q p \<longrightarrow> \<not> is_file ?c q)" by (rule "4.IH")
  also have "\<dots> \<longleftrightarrow> (\<forall>q. prefix q (x # p) \<longrightarrow> \<not> is_file (Dir es) q)"
  proof -
    have a: "is_file (Dir es) (x # q) = is_file ?c q" for q
      by (cases q) (auto simp: is_file_def split: option.splits)
    have b: "\<not> is_file (Dir es) []" by (simp add: is_file_def)
    show ?thesis
    proof
      assume h: "\<forall>q. prefix q p \<longrightarrow> \<not> is_file ?c q"
      show "\<forall>q. prefix q (x # p) \<longrightarrow> \<not> is_file (Dir es) q"
      proof (intro allI impI)
        fix q assume "prefix q (x # p)"
        then show "\<not> is_file (Dir es) q" using h a b by (cases q) auto
      qed
    next
      assume h: "\<forall>q. prefix q (x # p) \<longrightarrow> \<not> is_file (Dir es) q"
      show "\<forall>q. prefix q p \<longrightarrow> \<not> is_file ?c q"
      proof (intro allI impI)
        fix q assume "prefix q p"
        then have "prefix (x # q) (x # p)" by simp
        with h a show "\<not> is_file ?c q" by blast
      qed
    qed
  qed
  finally show ?case .
qed


lemma mkdir_keeps_file:
  assumes "mkdir n p = Inr n'" and "is_file n q"
  shows "lookup n' q = lookup n q"
proof (cases "prefix q p")
  case True
  with assms mkdir_succeeds_iff [of n p] show ?thesis by blast
next
  case False
  with assms(1) show ?thesis by (rule mkdir_lookup_other)
qed

lemma mkdir_keeps_is_dir:
  assumes "mkdir n p = Inr n'" and "is_dir n q"
  shows "is_dir n' q"
proof (cases "prefix q p")
  case True
  with assms(1) show ?thesis by (rule mkdir_is_dir_prefix)
next
  case False
  with assms(1) have "lookup n' q = lookup n q" by (rule mkdir_lookup_other)
  with assms(2) show ?thesis by (simp add: is_dir_def)
qed

lemma write_file_lookup_self:
  "write_file n p b = Inr n' \<Longrightarrow> lookup n' p = Some (File b)"
proof (induction n p b arbitrary: n' rule: write_file.induct)
  case (4 es x p b)
  then show ?case
    by (auto simp: update_conv' split: option.splits sum.splits if_splits)
qed auto

lemma write_file_lookup_other:
  "write_file n p b = Inr n' \<Longrightarrow> \<not> prefix q p \<Longrightarrow> lookup n' q = lookup n q"
proof (induction n p b arbitrary: n' q rule: write_file.induct)
  case (2 b0 b)
  then show ?case by (auto simp: lookup_File)
next
  case (4 es x p b)
  from "4.prems"(2) obtain y q' where q: "q = y # q'" by (cases q) auto
  show ?case
  proof (cases "y = x")
    case False
    with "4.prems"(1) show ?thesis
      by (auto simp: q update_conv' split: option.splits sum.splits if_splits)
  next
    case True
    with "4.prems"(2) q have np: "\<not> prefix q' p" by simp
    then have ne: "q' \<noteq> []" by auto
    show ?thesis
    proof (cases "map_of es x")
      case None
      with "4.prems"(1) ne show ?thesis
        by (cases q') (auto simp: q True update_conv' split: if_splits)
    next
      case (Some c)
      with "4.prems"(1) obtain c' where c': "write_file c p b = Inr c'"
        and n': "n' = Dir (AList.update x c' es)" by (auto split: sum.splits)
      from "4.IH" [OF Some c' np] show ?thesis
        by (simp add: q True n' update_conv' Some)
    qed
  qed
qed auto

lemma write_file_keeps_is_dir:
  "write_file n p b = Inr n' \<Longrightarrow> is_dir n q \<Longrightarrow> is_dir n' q"
proof (induction n p b arbitrary: n' q rule: write_file.induct)
  case (4 es x p b)
  show ?case
  proof (cases q)
    case Nil
    with "4.prems"(1) show ?thesis
      by (auto simp: is_dir_def split: option.splits sum.splits if_splits)
  next
    case (Cons y q')
    show ?thesis
    proof (cases "y = x")
      case False
      with "4.prems" show ?thesis
        by (auto simp: Cons is_dir_def update_conv' split: option.splits sum.splits if_splits)
    next
      case True
      show ?thesis
      proof (cases "map_of es x")
        case None
        with "4.prems"(2) show ?thesis by (simp add: Cons True is_dir_def)
      next
        case (Some c)
        with "4.prems"(1) obtain c' where c': "write_file c p b = Inr c'"
          and n': "n' = Dir (AList.update x c' es)" by (auto split: sum.splits)
        from "4.prems"(2) have "is_dir c q'" by (simp add: Cons True Some is_dir_def)
        from "4.IH" [OF Some c' this] show ?thesis
          by (simp add: Cons True n' update_conv' is_dir_def)
      qed
    qed
  qed
qed (auto simp: is_dir_def lookup_File split: if_splits)

lemma write_file_keeps_is_file:
  assumes "write_file n p b = Inr n'" and "is_file n q"
  shows "is_file n' q"
proof (cases "q = p")
  case True
  with write_file_lookup_self [OF assms(1)] show ?thesis by (simp add: is_file_def)
next
  case False
  show ?thesis
  proof (cases "prefix q p")
    case False
    with assms(1) have "lookup n' q = lookup n q" by (rule write_file_lookup_other)
    with assms(2) show ?thesis by (simp add: is_file_def)
  next
    case True
    with \<open>q \<noteq> p\<close> obtain z zs where p: "p = q @ z # zs"
      by (auto simp: prefix_def) (metis list.exhaust)
    from assms(2) obtain b0 where "lookup n q = Some (File b0)"
      by (auto simp: is_file_def split: option.splits node.splits)
    have "write_file n (q @ z # zs) b \<noteq> Inr n'" if "lookup n q = Some (File b0)" for n n'
      using that
    proof (induction q arbitrary: n n')
      case Nil
      then show ?case by simp
    next
      case (Cons a q)
      then show ?case
        by (cases n) (auto split: option.splits sum.splits)
    qed
    with \<open>lookup n q = Some (File b0)\<close> assms(1) p show ?thesis by blast
  qed
qed

lemma write_file_succeeds:
  "p \<noteq> [] \<Longrightarrow> is_dir n (butlast p) \<Longrightarrow> \<not> is_dir n p \<Longrightarrow> \<exists>n'. write_file n p b = Inr n'"
proof (induction n p b rule: write_file.induct)
  case (4 es x p b)
  show ?case
  proof (cases "map_of es x")
    case None
    with "4.prems" show ?thesis by (cases p) (auto simp: is_dir_def)
  next
    case (Some c)
    show ?thesis
    proof (cases p)
      case Nil
      with "4.prems" Some show ?thesis
        by (cases c) (auto simp: is_dir_def)
    next
      case (Cons y ys)
      with "4.prems" Some have "is_dir c (butlast p)" "\<not> is_dir c p" "p \<noteq> []"
        by (auto simp: is_dir_def)
      with "4.IH" [OF Some] obtain c' where "write_file c p b = Inr c'" by blast
      with Some show ?thesis by simp
    qed
  qed
qed (auto simp: is_dir_def lookup_File split: if_splits)

section \<open>Properties of the merge-copier\<close>

subsection \<open>The loop, one item at a time\<close>

lemma fs_echo [simp]: "fs (echo e st) = fs st"
  by (simp add: echo_def)

lemma out_echo [simp]: "out (echo e st) = out st @ [e]"
  by (simp add: echo_def)

lemma sync_dirs_Suc:
  "sync_dirs (Suc n) source target pfx overwrite st =
     sync_loop n target pfx overwrite
       (map name (filter (is_file (fs st)) (if is_dir (fs st) target then iterdir (fs st) target else [])))
       (map name (filter (is_dir (fs st)) (if is_dir (fs st) target then iterdir (fs st) target else [])))
       (if is_dir (fs st) source then iterdir (fs st) source
        else if is_file (fs st) source then [source] else [])
       st"
  by (simp add: Let_def)

lemma sync_loop_skip:
  "rule1 ov (name sp) ef ed (is_file (fs st) sp) \<Longrightarrow>
     sync_loop n t pfx ov ef ed (sp # rest) st =
       sync_loop n t pfx ov ef ed rest (echo SKIPPED (echo (Creating pfx (t @ [name sp])) st))"
  by (simp add: Let_def)

lemma sync_loop_file:
  "\<not> rule1 ov (name sp) ef ed (is_file (fs st) sp) \<Longrightarrow> is_file (fs st) sp \<Longrightarrow>
     sync_loop n t pfx ov ef ed (sp # rest) st =
       (case copy_item t sp (t @ [name sp]) (echo (Creating pfx (t @ [name sp])) st) of
          (Some e, st2) \<Rightarrow> Some (Some e, st2)
        | (None, st2) \<Rightarrow> sync_loop n t pfx ov ef ed rest st2)"
  by (simp add: Let_def)

lemma sync_loop_dir:
  "\<not> rule1 ov (name sp) ef ed (is_file (fs st) sp) \<Longrightarrow> \<not> is_file (fs st) sp \<Longrightarrow>
     sync_loop n t pfx ov ef ed (sp # rest) st =
       (case sync_dirs n sp (t @ [name sp]) (pfx @ ''  '') False
               (echo Newline (echo (Creating pfx (t @ [name sp])) st)) of
          None \<Rightarrow> None
        | Some (Some e, st2) \<Rightarrow> Some (Some e, st2)
        | Some (None, st2) \<Rightarrow> sync_loop n t pfx ov ef ed rest st2)"
  by (simp add: Let_def)

lemmas sync_loop_Cons = sync_loop_skip sync_loop_file sync_loop_dir

lemma sync_loop_rel:
  fixes R :: "path \<Rightarrow> state \<Rightarrow> error option \<Rightarrow> state \<Rightarrow> bool"
  assumes ret: "\<And>t st. R t st None st"
    and seq: "\<And>t a b r c. R t a None b \<Longrightarrow> R t b r c \<Longrightarrow> R t a r c"
    and skip: "\<And>t pfx x st. R t st None (echo SKIPPED (echo (Creating pfx (t @ [x])) st))"
    and copy: "\<And>t pfx sp x st r st'.
        copy_item t sp (t @ [x]) (echo (Creating pfx (t @ [x])) st) = (r, st') \<Longrightarrow> R t st r st'"
    and enter: "\<And>t pfx x st r st'.
        R (t @ [x]) (echo Newline (echo (Creating pfx (t @ [x])) st)) r st' \<Longrightarrow> R t st r st'"
    and rec: "\<And>s t pfx ov st r st'. sync_dirs n s t pfx ov st = Some (r, st') \<Longrightarrow> R t st r st'"
  shows "sync_loop n t pfx ov ef ed items st = Some (r, st') \<Longrightarrow> R t st r st'"
proof (induction items arbitrary: st)
  case Nil
  then show ?case by (simp add: ret)
next
  case (Cons sp rest)
  let ?st1 = "echo (Creating pfx (t @ [name sp])) st"
  consider (skipped) "rule1 ov (name sp) ef ed (is_file (fs st) sp)"
    | (copied) "\<not> rule1 ov (name sp) ef ed (is_file (fs st) sp)" "is_file (fs st) sp"
    | (entered) "\<not> rule1 ov (name sp) ef ed (is_file (fs st) sp)" "\<not> is_file (fs st) sp"
    by blast
  then show ?case
  proof cases
    case skipped
    with Cons.prems have "sync_loop n t pfx ov ef ed rest (echo SKIPPED ?st1) = Some (r, st')"
      by (simp add: sync_loop_skip)
    then have "R t (echo SKIPPED ?st1) r st'" by (rule Cons.IH)
    with skip [of t st pfx "name sp"] show ?thesis by (rule seq)
  next
    case copied
    obtain r2 st2 where c: "copy_item t sp (t @ [name sp]) ?st1 = (r2, st2)"
      by (cases "copy_item t sp (t @ [name sp]) ?st1")
    then have 2: "R t st r2 st2" by (rule copy)
    show ?thesis
    proof (cases r2)
      case None
      with Cons.prems copied c have "sync_loop n t pfx ov ef ed rest st2 = Some (r, st')"
        by (simp add: sync_loop_file)
      then have "R t st2 r st'" by (rule Cons.IH)
      with 2 None show ?thesis by (blast intro: seq)
    next
      case (Some e)
      with Cons.prems copied c have "st' = st2" "r = r2" by (simp_all add: sync_loop_file)
      with 2 show ?thesis by simp
    qed
  next
    case entered
    let ?st1' = "echo Newline ?st1"
    from Cons.prems entered obtain r2 st2 where
      c: "sync_dirs n sp (t @ [name sp]) (pfx @ ''  '') False ?st1' = Some (r2, st2)"
      by (cases "sync_dirs n sp (t @ [name sp]) (pfx @ ''  '') False ?st1'")
         (auto simp: sync_loop_dir)
    then have "R (t @ [name sp]) ?st1' r2 st2" by (rule rec)
    then have 2: "R t st r2 st2" by (rule enter)
    show ?thesis
    proof (cases r2)
      case None
      with Cons.prems entered c have "sync_loop n t pfx ov ef ed rest st2 = Some (r, st')"
        by (simp add: sync_loop_dir)
      then have "R t st2 r st'" by (rule Cons.IH)
      with 2 None show ?thesis by (blast intro: seq)
    next
      case (Some e)
      with Cons.prems entered c have "st' = st2" "r = r2" by (simp_all add: sync_loop_dir)
      with 2 show ?thesis by simp
    qed
  qed
qed

lemma sync_dirs_rel:
  fixes R :: "path \<Rightarrow> state \<Rightarrow> error option \<Rightarrow> state \<Rightarrow> bool"
  assumes ret: "\<And>t st. R t st None st"
    and seq: "\<And>t a b r c. R t a None b \<Longrightarrow> R t b r c \<Longrightarrow> R t a r c"
    and skip: "\<And>t pfx x st. R t st None (echo SKIPPED (echo (Creating pfx (t @ [x])) st))"
    and copy: "\<And>t pfx sp x st r st'.
        copy_item t sp (t @ [x]) (echo (Creating pfx (t @ [x])) st) = (r, st') \<Longrightarrow> R t st r st'"
    and enter: "\<And>t pfx x st r st'.
        R (t @ [x]) (echo Newline (echo (Creating pfx (t @ [x])) st)) r st' \<Longrightarrow> R t st r st'"
  shows "sync_dirs n s t pfx ov st = Some (r, st') \<Longrightarrow> R t st r st'"
proof (induction n arbitrary: s t pfx ov st r st')
  case 0
  then show ?case by simp
next
  case (Suc n)
  show ?case
  proof (rule sync_loop_rel [where R = R])
    show "sync_loop n t pfx ov
       (map name (filter (is_file (fs st)) (if is_dir (fs st) t then iterdir (fs st) t else [])))
       (map name (filter (is_dir (fs st)) (if is_dir (fs st) t then iterdir (fs st) t else [])))
       (if is_dir (fs st) s then iterdir (fs st) s
        else if is_file (fs st) s then [s] else [])
       st = Some (r, st')"
      using Suc.prems by (simp only: sync_dirs_Suc)
  qed (fact ret seq skip copy enter Suc.IH)+
qed

subsection \<open>The copy of one file\<close>

lemma copy_item_cases:
  assumes "copy_item t sp tp st = (r, st')"
  obtains (mkdir_failed) e where "mkdir (fs st) t = Inl e" "r = Some e" "st' = echo FAILED st"
  | (copy_failed) fs2 e where "mkdir (fs st) t = Inr fs2" "copyfile fs2 sp tp = Inl e"
      "r = Some e" "st' = echo FAILED (st\<lparr>fs := fs2\<rparr>)"
  | (copied) fs2 fs3 where "mkdir (fs st) t = Inr fs2" "copyfile fs2 sp tp = Inr fs3"
      "r = None" "st' = echo OK (st\<lparr>fs := fs3\<rparr>)"
  using assms by (auto simp: copy_item_def split: sum.splits)

lemma copyfile_Inr:
  "copyfile n src dst = Inr n' \<Longrightarrow>
     \<exists>b. lookup n src = Some (File b) \<and> src \<noteq> dst \<and> write_file n dst b = Inr n'"
  by (auto simp: copyfile_def exists_path_def split: if_splits option.splits node.splits)

lemma copy_item_lookup_other:
  assumes "copy_item t sp (t @ [x]) st = (r, st')" and "\<not> prefix q (t @ [x])"
  shows "lookup (fs st') q = lookup (fs st) q"
proof -
  from assms(2) have nt: "\<not> prefix q t" by (auto simp: prefix_def)
  from assms(1) show ?thesis
  proof (cases rule: copy_item_cases)
    case (mkdir_failed e)
    then show ?thesis by simp
  next
    case (copy_failed fs2 e)
    with mkdir_lookup_other [OF copy_failed(1) nt] show ?thesis by simp
  next
    case (copied fs2 fs3)
    from copyfile_Inr [OF copied(2)] obtain b where "write_file fs2 (t @ [x]) b = Inr fs3"
      by blast
    from write_file_lookup_other [OF this assms(2)] mkdir_lookup_other [OF copied(1) nt] copied
    show ?thesis by simp
  qed
qed

lemma copy_item_keeps_is_dir:
  assumes "copy_item t sp tp st = (r, st')" and "is_dir (fs st) q"
  shows "is_dir (fs st') q"
  using assms(1)
proof (cases rule: copy_item_cases)
  case (mkdir_failed e)
  with assms(2) show ?thesis by simp
next
  case (copy_failed fs2 e)
  with mkdir_keeps_is_dir [OF copy_failed(1) assms(2)] show ?thesis by simp
next
  case (copied fs2 fs3)
  from copyfile_Inr [OF copied(2)] obtain b where "write_file fs2 tp b = Inr fs3" by blast
  from write_file_keeps_is_dir [OF this mkdir_keeps_is_dir [OF copied(1) assms(2)]] copied
  show ?thesis by simp
qed

lemma copy_item_keeps_is_file:
  assumes "copy_item t sp tp st = (r, st')" and "is_file (fs st) q"
  shows "is_file (fs st') q"
  using assms(1)
proof (cases rule: copy_item_cases)
  case (mkdir_failed e)
  with assms(2) show ?thesis by simp
next
  case (copy_failed fs2 e)
  with mkdir_keeps_file [OF copy_failed(1) assms(2)] assms(2) show ?thesis
    by (simp add: is_file_def)
next
  case (copied fs2 fs3)
  from copyfile_Inr [OF copied(2)] obtain b where w: "write_file fs2 tp b = Inr fs3" by blast
  from mkdir_keeps_file [OF copied(1) assms(2)] assms(2) have "is_file fs2 q"
    by (simp add: is_file_def)
  from write_file_keeps_is_file [OF w this] copied show ?thesis by simp
qed

lemma copy_item_copies:
  assumes "copy_item t sp tp st = (None, st')"
  shows "\<exists>b. lookup (fs st) sp = Some (File b) \<and> lookup (fs st') tp = Some (File b)"
  using assms
proof (cases rule: copy_item_cases)
  case (copied fs2 fs3)
  from copyfile_Inr [OF copied(2)] obtain b where b: "lookup fs2 sp = Some (File b)"
    and w: "write_file fs2 tp b = Inr fs3" by blast
  have "lookup (fs st) sp = Some (File b)"
  proof (cases "prefix sp t")
    case True
    from mkdir_is_dir_prefix [OF copied(1) True] b show ?thesis by (simp add: is_dir_def)
  next
    case False
    from mkdir_lookup_other [OF copied(1) False] b show ?thesis by simp
  qed
  with write_file_lookup_self [OF w] copied show ?thesis by simp
qed simp_all

subsection \<open>What a call leaves as it is\<close>

lemma sync_dirs_frame:
  assumes "sync_dirs n s t pfx ov st = Some (r, st')"
    and "\<not> prefix q t" and "\<not> prefix t q"
  shows "lookup (fs st') q = lookup (fs st) q"
proof -
  define R :: "path \<Rightarrow> state \<Rightarrow> error option \<Rightarrow> state \<Rightarrow> bool" where
    "R = (\<lambda>t a r b. \<forall>q. \<not> prefix q t \<and> \<not> prefix t q \<longrightarrow> lookup (fs b) q = lookup (fs a) q)"
  have "R t st r st'"
  proof (rule sync_dirs_rel [where R = R, OF _ _ _ _ _ assms(1)])
    show "R t st None st" for t st by (simp add: R_def)
    show "R t a None b \<Longrightarrow> R t b r c \<Longrightarrow> R t a r c" for t a b r c by (simp add: R_def)
    show "R t st None (echo SKIPPED (echo (Creating pfx (t @ [x])) st))" for t pfx x st
      by (simp add: R_def)
    show "R t st r st'"
      if "copy_item t sp (t @ [x]) (echo (Creating pfx (t @ [x])) st) = (r, st')"
      for t pfx sp x st r st'
      unfolding R_def
    proof (intro allI impI)
      fix q assume "\<not> prefix q t \<and> \<not> prefix t q"
      then have "\<not> prefix q (t @ [x])" by auto
      from copy_item_lookup_other [OF that this] show "lookup (fs st') q = lookup (fs st) q"
        by simp
    qed
    show "R t st r st'"
      if "R (t @ [x]) (echo Newline (echo (Creating pfx (t @ [x])) st)) r st'"
      for t pfx x st r st'
      unfolding R_def
    proof (intro allI impI)
      fix q assume q: "\<not> prefix q t \<and> \<not> prefix t q"
      then have "\<not> prefix q (t @ [x])" by auto
      moreover from q have "\<not> prefix (t @ [x]) q" by (auto dest: append_prefixD)
      ultimately show "lookup (fs st') q = lookup (fs st) q" using that by (simp add: R_def)
    qed
  qed
  with assms(2,3) show ?thesis by (simp add: R_def)
qed

lemma sync_dirs_keeps_is_dir:
  assumes "sync_dirs n s t pfx ov st = Some (r, st')" and "is_dir (fs st) q"
  shows "is_dir (fs st') q"
proof -
  define R :: "path \<Rightarrow> state \<Rightarrow> error option \<Rightarrow> state \<Rightarrow> bool" where
    "R = (\<lambda>t a r b. \<forall>q. is_dir (fs a) q \<longrightarrow> is_dir (fs b) q)"
  have "R t st r st'"
  proof (rule sync_dirs_rel [where R = R, OF _ _ _ _ _ assms(1)])
    show "R t st r st'"
      if "copy_item t sp (t @ [x]) (echo (Creating pfx (t @ [x])) st) = (r, st')"
      for t pfx sp x st r st'
      using copy_item_keeps_is_dir [OF that] by (simp add: R_def)
  qed (simp_all add: R_def)
  with assms(2) show ?thesis by (simp add: R_def)
qed

lemma sync_dirs_keeps_is_file:
  assumes "sync_dirs n s t pfx ov st = Some (r, st')" and "is_file (fs st) q"
  shows "is_file (fs st') q"
proof -
  define R :: "path \<Rightarrow> state \<Rightarrow> error option \<Rightarrow> state \<Rightarrow> bool" where
    "R = (\<lambda>t a r b. \<forall>q. is_file (fs a) q \<longrightarrow> is_file (fs b) q)"
  have "R t st r st'"
  proof (rule sync_dirs_rel [where R = R, OF _ _ _ _ _ assms(1)])
    show "R t st r st'"
      if "copy_item t sp (t @ [x]) (echo (Creating pfx (t @ [x])) st) = (r, st')"
      for t pfx sp x st r st'
      using copy_item_keeps_is_file [OF that] by (simp add: R_def)
  qed (simp_all add: R_def)
  with assms(2) show ?thesis by (simp add: R_def)
qed

subsection \<open>The terminal output of a call\<close>

lemma copied_append:
  "evs1 = [] \<or> \<not> is_creating (last evs1) \<Longrightarrow> copied (evs1 @ evs2) = copied evs1 @ copied evs2"
proof (induction evs1)
  case Nil
  show ?case by simp
next
  case (Cons e evs1)
  show ?case
  proof (cases "evs1 = []")
    case True
    with Cons.prems show ?thesis by (cases e) (simp_all add: is_creating_def)
  next
    case False
    with Cons show ?thesis by (cases e) (simp_all add: is_creating_def)
  qed
qed

lemma sync_dirs_log:
  assumes "sync_dirs n s t pfx ov st = Some (r, st')"
  shows "\<exists>evs. out st' = out st @ evs \<and> (evs = [] \<or> \<not> is_creating (last evs))
           \<and> failure_shape evs r
           \<and> (\<forall>q \<in> set (copied evs). is_file (fs st') q)
           \<and> (\<forall>q. is_file (fs st) q \<longrightarrow> is_file (fs st') q)"
proof -
  define R :: "path \<Rightarrow> state \<Rightarrow> error option \<Rightarrow> state \<Rightarrow> bool" where
    "R = (\<lambda>t a r b. \<exists>evs. out b = out a @ evs \<and> (evs = [] \<or> \<not> is_creating (last evs))
           \<and> failure_shape evs r
           \<and> (\<forall>q \<in> set (copied evs). is_file (fs b) q)
           \<and> (\<forall>q. is_file (fs a) q \<longrightarrow> is_file (fs b) q))"
  have "R t st r st'"
  proof (rule sync_dirs_rel [where R = R, OF _ _ _ _ _ assms(1)])
    show "R t st None st" for t st
      unfolding R_def by (rule exI [of _ "[]"]) (simp add: failure_shape_def)
    show "R t st None (echo SKIPPED (echo (Creating pfx (t @ [x])) st))" for t pfx x st
      unfolding R_def
      by (rule exI [of _ "[Creating pfx (t @ [x]), SKIPPED]"])
         (simp add: failure_shape_def is_creating_def)
    show "R t a r c" if ab: "R t a None b" and bc: "R t b r c" for t a b r c
    proof -
      from ab obtain e1 where e1: "out b = out a @ e1" "e1 = [] \<or> \<not> is_creating (last e1)"
        "failure_shape e1 None" "\<forall>q \<in> set (copied e1). is_file (fs b) q"
        "\<forall>q. is_file (fs a) q \<longrightarrow> is_file (fs b) q" unfolding R_def by blast
      from bc obtain e2 where e2: "out c = out b @ e2" "e2 = [] \<or> \<not> is_creating (last e2)"
        "failure_shape e2 r" "\<forall>q \<in> set (copied e2). is_file (fs c) q"
        "\<forall>q. is_file (fs b) q \<longrightarrow> is_file (fs c) q" unfolding R_def by blast
      have 1: "out c = out a @ (e1 @ e2)" using e1(1) e2(1) by simp
      have 2: "e1 @ e2 = [] \<or> \<not> is_creating (last (e1 @ e2))"
        using e1(2) e2(2) by (cases "e2 = []") auto
      have nf: "FAILED \<notin> set e1" using e1(3) by (simp add: failure_shape_def)
      have 3: "failure_shape (e1 @ e2) r"
        using e2(3) nf by (auto simp: failure_shape_def butlast_append)
      have "copied (e1 @ e2) = copied e1 @ copied e2" using e1(2) by (rule copied_append)
      then have 4: "\<forall>q \<in> set (copied (e1 @ e2)). is_file (fs c) q"
        using e1(4) e2(4,5) by auto
      have 5: "\<forall>q. is_file (fs a) q \<longrightarrow> is_file (fs c) q" using e1(5) e2(5) by blast
      show ?thesis unfolding R_def using 1 2 3 4 5 by blast
    qed
    show "R t st r st'"
      if c: "copy_item t sp (t @ [x]) (echo (Creating pfx (t @ [x])) st) = (r, st')"
      for t pfx sp x st r st'
    proof -
      have keep: "\<forall>q. is_file (fs st) q \<longrightarrow> is_file (fs st') q"
        using copy_item_keeps_is_file [OF c] by simp
      show ?thesis
      proof (cases r)
        case None
        from c have "copy_item t sp (t @ [x]) (echo (Creating pfx (t @ [x])) st) = (None, st')"
          using None by simp
        from copy_item_copies [OF this] have f: "is_file (fs st') (t @ [x])"
          by (auto simp: is_file_def)
        from c None have "out st' = out st @ [Creating pfx (t @ [x]), OK]"
          by (cases rule: copy_item_cases) simp_all
        with f keep None show ?thesis unfolding R_def
          by (intro exI [of _ "[Creating pfx (t @ [x]), OK]"])
             (simp add: failure_shape_def is_creating_def)
      next
        case (Some e)
        with c have "out st' = out st @ [Creating pfx (t @ [x]), FAILED]"
          by (cases rule: copy_item_cases) simp_all
        with keep Some show ?thesis unfolding R_def
          by (intro exI [of _ "[Creating pfx (t @ [x]), FAILED]"])
             (simp add: failure_shape_def is_creating_def)
      qed
    qed
    show "R t st r st'"
      if "R (t @ [x]) (echo Newline (echo (Creating pfx (t @ [x])) st)) r st'"
      for t pfx x st r st'
    proof -
      from that obtain e2 where e2: "out st' = out st @ [Creating pfx (t @ [x]), Newline] @ e2"
        "e2 = [] \<or> \<not> is_creating (last e2)"
        "failure_shape e2 r" "\<forall>q \<in> set (copied e2). is_file (fs st') q"
        "\<forall>q. is_file (fs st) q \<longrightarrow> is_file (fs st') q" unfolding R_def by auto
      let ?e = "[Creating pfx (t @ [x]), Newline] @ e2"
      have 2: "?e = [] \<or> \<not> is_creating (last ?e)" using e2(2) by (auto simp: is_creating_def)
      have 3: "failure_shape ?e r" using e2(3) by (auto simp: failure_shape_def)
      have 4: "\<forall>q \<in> set (copied ?e). is_file (fs st') q" using e2(4) by simp
      show ?thesis unfolding R_def using e2(1) 2 3 4 e2(5) by blast
    qed
  qed
  then show ?thesis by (simp add: R_def)
qed

subsection \<open>Enough nested calls\<close>

lemma height_child: "map_of es x = Some c \<Longrightarrow> height c \<le> height_list es"
  by (induction es) (auto split: if_splits)

lemma depth_child:
  assumes "is_dir n p"
  shows "depth n (p @ [x]) < depth n p"
proof -
  from assms obtain es where es: "lookup n p = Some (Dir es)"
    by (auto simp: is_dir_def split: option.splits node.splits)
  show ?thesis
  proof (cases "map_of es x")
    case None
    with es show ?thesis by (simp add: depth_def lookup_append)
  next
    case (Some c)
    with es height_child [OF Some] show ?thesis by (simp add: depth_def lookup_append)
  qed
qed

lemma iterdir_children: "sp \<in> set (iterdir n p) \<Longrightarrow> \<exists>x. sp = p @ [x]"
  by (auto simp: iterdir_def split: option.splits node.splits)

lemma iterdir_is_dir: "sp \<in> set (iterdir n p) \<Longrightarrow> is_dir n p"
  unfolding iterdir_def is_dir_def by (cases "lookup n p") (auto split: node.splits)

lemma name_snoc [simp]: "name (p @ [x]) = x"
  by (simp add: name_def)

lemma apart_snoc_left: "apart p q \<Longrightarrow> apart (p @ [x]) q"
  by (auto simp: apart_def dest: append_prefixD)

lemma apart_snoc_right: "apart p q \<Longrightarrow> apart p (q @ [x])"
  by (auto simp: apart_def dest: append_prefixD)

lemma apart_sym: "apart p q \<Longrightarrow> apart q p"
  by (auto simp: apart_def)

lemma apart_not_Nil: "apart p q \<Longrightarrow> p \<noteq> []"
  by (auto simp: apart_def)

lemma sync_dirs_frame':
  "sync_dirs n s t pfx ov st = Some (r, st') \<Longrightarrow> apart q t \<Longrightarrow>
     lookup (fs st') q = lookup (fs st) q"
  by (rule sync_dirs_frame) (auto simp: apart_def)

lemma copy_item_frame:
  "copy_item t sp (t @ [x]) st = (r, st') \<Longrightarrow> apart q t \<Longrightarrow>
     lookup (fs st') q = lookup (fs st) q"
  by (rule copy_item_lookup_other) (auto simp: apart_def)

lemma apart_depth:
  "(\<And>q. apart q t \<Longrightarrow> lookup n' q = lookup n q) \<Longrightarrow> apart sp t \<Longrightarrow> depth n' sp = depth n sp"
  by (simp add: depth_def)

lemma sync_loop_terminates:
  assumes rec: "\<And>s t pfx ov st. apart s t \<Longrightarrow> depth (fs st) s < n \<Longrightarrow>
      \<exists>r st'. sync_dirs n s t pfx ov st = Some (r, st')"
  shows "\<forall>sp \<in> set items. apart sp t \<and> (\<not> is_file (fs st) sp \<longrightarrow> depth (fs st) sp < n) \<Longrightarrow>
     \<exists>r st'. sync_loop n t pfx ov ef ed items st = Some (r, st')"
proof (induction items arbitrary: st)
  case Nil
  show ?case by simp
next
  case (Cons sp rest)
  let ?x = "name sp"
  let ?st1 = "echo (Creating pfx (t @ [?x])) st"
  from Cons.prems have sp: "apart sp t" "\<not> is_file (fs st) sp \<longrightarrow> depth (fs st) sp < n" by auto
  have next_ok: "\<exists>r st'. sync_loop n t pfx ov ef ed rest st2 = Some (r, st')"
    if "\<And>q. apart q t \<Longrightarrow> lookup (fs st2) q = lookup (fs st) q" for st2
  proof (rule Cons.IH, intro ballI)
    fix sp' assume "sp' \<in> set rest"
    with Cons.prems have a: "apart sp' t" "\<not> is_file (fs st) sp' \<longrightarrow> depth (fs st) sp' < n"
      by auto
    from that [OF a(1)] a
    show "apart sp' t \<and> (\<not> is_file (fs st2) sp' \<longrightarrow> depth (fs st2) sp' < n)"
      by (simp add: depth_def is_file_def)
  qed
  consider (skipped) "rule1 ov ?x ef ed (is_file (fs st) sp)"
    | (copied) "\<not> rule1 ov ?x ef ed (is_file (fs st) sp)" "is_file (fs st) sp"
    | (entered) "\<not> rule1 ov ?x ef ed (is_file (fs st) sp)" "\<not> is_file (fs st) sp"
    by blast
  then show ?case
  proof cases
    case skipped
    have "\<exists>r st'. sync_loop n t pfx ov ef ed rest (echo SKIPPED ?st1) = Some (r, st')"
      by (rule next_ok) simp
    with skipped show ?thesis by (simp add: sync_loop_skip)
  next
    case copied
    obtain r2 st2 where c: "copy_item t sp (t @ [?x]) ?st1 = (r2, st2)"
      by (cases "copy_item t sp (t @ [?x]) ?st1")
    show ?thesis
    proof (cases r2)
      case None
      have "\<exists>r st'. sync_loop n t pfx ov ef ed rest st2 = Some (r, st')"
        by (rule next_ok) (use copy_item_frame [OF c] in simp)
      with copied c None show ?thesis by (simp add: sync_loop_file)
    next
      case (Some e)
      with copied c show ?thesis by (simp add: sync_loop_file)
    qed
  next
    case entered
    let ?st1' = "echo Newline ?st1"
    have "apart sp (t @ [?x])" using sp(1) by (rule apart_snoc_right)
    moreover have "depth (fs ?st1') sp < n" using sp(2) entered(2) by simp
    ultimately obtain r2 st2 where
      c: "sync_dirs n sp (t @ [?x]) (pfx @ ''  '') False ?st1' = Some (r2, st2)"
      using rec by blast
    show ?thesis
    proof (cases r2)
      case None
      have "\<exists>r st'. sync_loop n t pfx ov ef ed rest st2 = Some (r, st')"
      proof (rule next_ok)
        fix q assume "apart q t"
        then have "apart q (t @ [?x])" by (rule apart_snoc_right)
        from sync_dirs_frame' [OF c this] show "lookup (fs st2) q = lookup (fs st) q" by simp
      qed
      with entered c None show ?thesis by (simp add: sync_loop_dir)
    next
      case (Some e)
      with entered c show ?thesis by (simp add: sync_loop_dir)
    qed
  qed
qed

lemma sync_dirs_terminates:
  "apart s t \<Longrightarrow> depth (fs st) s < n \<Longrightarrow> \<exists>r st'. sync_dirs n s t pfx ov st = Some (r, st')"
proof (induction n arbitrary: s t pfx ov st)
  case 0
  then show ?case by simp
next
  case (Suc n)
  let ?content = "if is_dir (fs st) s then iterdir (fs st) s
        else if is_file (fs st) s then [s] else []"
  have "\<forall>sp \<in> set ?content. apart sp t \<and> (\<not> is_file (fs st) sp \<longrightarrow> depth (fs st) sp < n)"
  proof
    fix sp assume sp: "sp \<in> set ?content"
    show "apart sp t \<and> (\<not> is_file (fs st) sp \<longrightarrow> depth (fs st) sp < n)"
    proof (cases "is_dir (fs st) s")
      case True
      with sp obtain x where x: "sp = s @ [x]" by (auto dest: iterdir_children)
      from depth_child [OF True, of x] Suc.prems(2) have "depth (fs st) sp < n" by (simp add: x)
      with Suc.prems(1) show ?thesis by (simp add: x apart_snoc_left)
    next
      case False
      with sp have "sp = s" "is_file (fs st) s" by (auto split: if_splits)
      with Suc.prems(1) show ?thesis by simp
    qed
  qed
  from sync_loop_terminates [of n, OF Suc.IH this] show ?case
    unfolding sync_dirs_Suc by blast
qed

subsection \<open>Removing the scratch directory\<close>

lemma lookup_remove: "p \<noteq> [] \<Longrightarrow> lookup (remove n p) p = None"
proof (induction n p rule: remove.induct)
  case (3 es x p)
  show ?case
  proof (cases "p = []")
    case True
    then show ?thesis by (simp add: delete_conv')
  next
    case False
    with "3.IH" show ?thesis
      by (cases "map_of es x") (simp_all add: update_conv')
  qed
qed simp_all

lemma rmtree_gone:
  assumes "\<not> is_file n p" and "p \<noteq> []"
  shows "case rmtree n p of Inl e \<Rightarrow> \<not> exists_path n p | Inr n' \<Rightarrow> \<not> exists_path n' p"
proof (cases "lookup n p")
  case None
  then show ?thesis by (simp add: rmtree_def exists_path_def)
next
  case (Some c)
  with assms(1) obtain es where "c = Dir es" by (cases c) (auto simp: is_file_def)
  with Some assms(2) show ?thesis
    by (simp add: rmtree_def exists_path_def lookup_remove)
qed

lemma sync_dirs_no_new_file_at_source:
  assumes "sync_dirs n s t pfx ov st = Some (r, st')" and "\<not> is_file (fs st) s"
  shows "\<not> is_file (fs st') s"
proof (cases "is_dir (fs st) s")
  case True
  from sync_dirs_keeps_is_dir [OF assms(1) True] show ?thesis
    by (auto simp: is_dir_def is_file_def split: option.splits node.splits)
next
  case False
  with assms show ?thesis by (cases n) (auto simp: sync_dirs_Suc)
qed

lemma copy_pipeline_configs_unfold:
  "copy_pipeline_configs n result_path conf_path skip_config env st =
     (case (if skip_config then Some (None, st)
            else sync_dirs n (result_path @ [''config'']) (conf_path @ [env]) [] False st) of
        None \<Rightarrow> None
      | Some (r, st1) \<Rightarrow>
          (case rmtree (fs st1) (result_path @ [''config'']) of
             Inl e \<Rightarrow> Some (Some e, st1)
           | Inr fs2 \<Rightarrow> Some (r, st1\<lparr>fs := fs2\<rparr>)))"
  by (simp add: copy_pipeline_configs_def Let_def)

subsection \<open>A file that the target already has\<close>

lemma child_in_iterdir: "lookup n (p @ [x]) \<noteq> None \<Longrightarrow> p @ [x] \<in> set (iterdir n p)"
proof -
  assume a: "lookup n (p @ [x]) \<noteq> None"
  then obtain c where c: "lookup n p = Some c" by (auto simp: lookup_append split: option.splits)
  with a obtain es where es: "c = Dir es" by (cases c) (auto simp: lookup_append)
  with a c obtain d where "map_of es x = Some d"
    by (auto simp: lookup_append split: option.splits)
  then have "(x, d) \<in> set es" by (rule map_of_SomeD)
  then have "x \<in> fst ` set es" by force
  with c es show ?thesis by (auto simp: iterdir_def)
qed

lemma parent_is_dir: "lookup n (p @ [x]) \<noteq> None \<Longrightarrow> is_dir n p"
  using child_in_iterdir iterdir_is_dir by blast

lemma existing_files_mem:
  assumes "is_file n (t @ [f])"
  shows "f \<in> set (map name (filter (is_file n) (if is_dir n t then iterdir n t else [])))"
proof -
  from assms have ne: "lookup n (t @ [f]) \<noteq> None"
    by (auto simp: is_file_def split: option.splits)
  from parent_is_dir [OF ne] child_in_iterdir [OF ne] assms
  have "t @ [f] \<in> set (filter (is_file n) (if is_dir n t then iterdir n t else []))" by simp
  then have "name (t @ [f]) \<in> name ` set (filter (is_file n) (if is_dir n t then iterdir n t else []))"
    by (rule imageI)
  then show ?thesis by simp
qed





lemma apart_child_other: "apart s t \<Longrightarrow> apart (s @ [x]) (t @ [y])"
  by (simp add: apart_snoc_left apart_snoc_right)



subsection \<open>The copy into an empty target\<close>

lemma stat_is_file: "is_file n q \<longleftrightarrow> (\<exists>b. stat n q = Some (Regular b))"
  by (auto simp: is_file_def stat_def split: option.splits node.splits)

lemma stat_is_dir: "is_dir n q \<longleftrightarrow> stat n q = Some Directory"
  by (auto simp: is_dir_def stat_def split: option.splits node.splits)

lemma stat_None: "stat n q = None \<longleftrightarrow> lookup n q = None"
  by (auto simp: stat_def split: option.splits node.splits)

lemma mkdir_stat:
  assumes "mkdir n p = Inr n'"
  shows "stat n' q = (if prefix q p then Some Directory else stat n q)"
proof (cases "prefix q p")
  case True
  with mkdir_is_dir_prefix [OF assms True] show ?thesis by (simp add: stat_is_dir)
next
  case False
  with mkdir_lookup_other [OF assms False] show ?thesis by (simp add: stat_def)
qed

lemma write_file_parent:
  "write_file n p b = Inr n' \<Longrightarrow> strict_prefix q p \<Longrightarrow> is_dir n q"
proof (induction n p b arbitrary: n' q rule: write_file.induct)
  case (4 es x p b)
  show ?case
  proof (cases q)
    case Nil
    then show ?thesis by (simp add: is_dir_def)
  next
    case (Cons y q')
    with "4.prems"(2) have y: "y = x" and sp: "strict_prefix q' p" by auto
    then have "p \<noteq> []" by auto
    with "4.prems"(1) obtain c c' where c: "map_of es x = Some c" "write_file c p b = Inr c'"
      by (auto split: option.splits sum.splits if_splits)
    from "4.IH" [OF c sp] c(1) show ?thesis by (simp add: Cons y is_dir_def)
  qed
qed auto

lemma write_file_stat:
  assumes "write_file n p b = Inr n'"
  shows "stat n' q = (if q = p then Some (Regular b) else stat n q)"
proof (cases "q = p")
  case True
  with write_file_lookup_self [OF assms] show ?thesis by (simp add: stat_def)
next
  case False
  show ?thesis
  proof (cases "prefix q p")
    case True
    with False have sp: "strict_prefix q p" by (simp add: strict_prefix_def)
    from write_file_parent [OF assms sp] have "is_dir n q" .
    with write_file_keeps_is_dir [OF assms this] False show ?thesis by (simp add: stat_is_dir)
  next
    case np: False
    with write_file_lookup_other [OF assms np] False show ?thesis by (simp add: stat_def)
  qed
qed

lemma copy_stat_Cons:
  "copy_stat (Dir es) (x # q) = (case map_of es x of None \<Rightarrow> None | Some c \<Rightarrow> copy_stat c q)"
  by (simp add: copy_stat_def split: option.splits)

lemma copy_stat_File: "copy_stat (File b) q = (if q = [] then Some (Regular b) else None)"
  by (simp add: copy_stat_def lookup_File)

lemma has_file_list_append: "has_file_list (xs @ ys) \<longleftrightarrow> has_file_list xs \<or> has_file_list ys"
  by (induction xs) auto

lemma copy_stat_no_file: "\<not> has_file c \<Longrightarrow> copy_stat c [] = None"
  by (cases c) (simp_all add: copy_stat_def)

lemma copy_stat_has_file_dir: "has_file (Dir es) \<Longrightarrow> copy_stat (Dir es) [] = Some Directory"
  by (simp add: copy_stat_def)


lemma prefix_cases_path:
  obtains (above) "strict_prefix q t" | (self) "q = t"
    | (below) y q' where "q = t @ y # q'" | (apart) "apart q t"
proof (cases "prefix q t")
  case True
  then show ?thesis using above self by (auto simp: strict_prefix_def)
next
  case False
  show ?thesis
  proof (cases "prefix t q")
    case True
    then obtain r where r: "q = t @ r" by (auto simp: prefix_def)
    with False have "r \<noteq> []" by auto
    then obtain y q' where "r = y # q'" by (cases r) auto
    with r below show ?thesis by simp
  next
    case np: False
    with False apart show ?thesis by (simp add: apart_def)
  qed
qed

lemma merged_compose:
  assumes m1: "merged st0 t (Dir done) st1"
    and m2: "merged st1 (t @ [x]) c st2"
    and new: "x \<notin> fst ` set done"
  shows "merged st0 t (Dir (done @ [(x, c)])) st2"
proof -
  let ?S = "Dir (done @ [(x, c)])"
  have hf: "has_file_list (done @ [(x, c)]) \<longleftrightarrow> has_file_list done \<or> has_file c"
    by (simp add: has_file_list_append)
  have mo: "map_of done x = None" using new by (simp add: map_of_eq_None_iff)
  have at_x: "stat (fs st1) (t @ [x]) = None"
    using m1 by (simp add: merged_def copy_stat_Cons mo)
  have a: "stat (fs st2) q = (if has_file ?S then Some Directory else stat (fs st0) q)"
    if "strict_prefix q t" for q
  proof -
    from that have "strict_prefix q (t @ [x])" by (auto simp: strict_prefix_def)
    with m2 have "stat (fs st2) q = (if has_file c then Some Directory else stat (fs st1) q)"
      by (simp add: merged_def)
    moreover from m1 that
    have "stat (fs st1) q = (if has_file_list done then Some Directory else stat (fs st0) q)"
      by (simp add: merged_def)
    ultimately show ?thesis by (simp add: hf)
  qed
  have b: "stat (fs st2) t = (if has_file ?S then copy_stat ?S [] else stat (fs st0) t)"
  proof -
    have "strict_prefix t (t @ [x])" by (simp add: strict_prefix_def)
    with m2 have "stat (fs st2) t = (if has_file c then Some Directory else stat (fs st1) t)"
      by (simp add: merged_def)
    moreover from m1
    have "stat (fs st1) t = (if has_file_list done then copy_stat (Dir done) [] else stat (fs st0) t)"
      by (simp add: merged_def)
    ultimately show ?thesis by (auto simp: hf copy_stat_def)
  qed
  have c: "stat (fs st2) (t @ q) = copy_stat ?S q" if "q \<noteq> []" for q
  proof -
    from that obtain y q' where q: "q = y # q'" by (cases q) auto
    show ?thesis
    proof (cases "y = x")
      case True
      have "stat (fs st2) ((t @ [x]) @ q') = copy_stat c q'"
      proof (cases "q' = []")
        case True
        with m2 at_x show ?thesis by (auto simp: merged_def copy_stat_no_file)
      next
        case False
        with m2 show ?thesis by (simp add: merged_def)
      qed
      then show ?thesis by (simp add: q True copy_stat_Cons mo map_add_def)
    next
      case False
      then have "apart (t @ y # q') (t @ [x])" by (auto simp: apart_def prefix_def)
      with m2 have "stat (fs st2) (t @ y # q') = stat (fs st1) (t @ y # q')"
        by (simp add: merged_def)
      also from m1 have "\<dots> = copy_stat (Dir done) (y # q')" by (simp add: merged_def)
      also from False have "\<dots> = copy_stat ?S (y # q')"
        by (simp add: copy_stat_Cons map_add_def split: option.splits)
      finally show ?thesis by (simp add: q)
    qed
  qed
  have d: "stat (fs st2) q = stat (fs st0) q" if "apart q t" for q
  proof -
    from that have "apart q (t @ [x])" by (rule apart_snoc_right)
    with m2 have "stat (fs st2) q = stat (fs st1) q" by (simp add: merged_def)
    with m1 that show ?thesis by (simp add: merged_def)
  qed
  show ?thesis unfolding merged_def using a b c d by blast
qed


lemma merged_echo_left [simp]: "merged (echo e st) t S st' = merged st t S st'"
  by (simp add: merged_def)

lemma merged_start:
  "\<forall>q. q \<noteq> [] \<longrightarrow> stat (fs st) (t @ q) = None \<Longrightarrow> merged st t (Dir []) st"
  by (auto simp: merged_def copy_stat_def lookup_empty_dir)

lemma merged_creatable:
  assumes "merged st0 t (Dir done) st" and "\<forall>q. prefix q t \<longrightarrow> \<not> is_file (fs st0) q"
  shows "\<forall>q. prefix q t \<longrightarrow> \<not> is_file (fs st) q"
proof (intro allI impI)
  fix q assume p: "prefix q t"
  show "\<not> is_file (fs st) q"
  proof (cases "q = t")
    case True
    with assms show ?thesis
      by (auto simp: merged_def stat_is_file copy_stat_def split: if_splits)
  next
    case False
    with p have "strict_prefix q t" by (simp add: strict_prefix_def)
    with assms p show ?thesis
      by (auto simp: merged_def stat_is_file split: if_splits)
  qed
qed

lemma merged_nothing_at:
  assumes "merged st0 t (Dir done) st" and "x \<notin> fst ` set done"
  shows "stat (fs st) ((t @ [x]) @ q) = None"
proof -
  have "map_of done x = None" using assms(2) by (simp add: map_of_eq_None_iff)
  with assms(1) show ?thesis by (simp add: merged_def copy_stat_Cons)
qed

lemma copy_item_merged:
  assumes src: "lookup (fs st) sp = Some (File b)"
    and nsp: "\<not> prefix sp t" "sp \<noteq> t @ [x]"
    and creat: "\<forall>q. prefix q t \<longrightarrow> \<not> is_file (fs st) q"
    and empty: "\<forall>q. stat (fs st) ((t @ [x]) @ q) = None"
  shows "\<exists>st'. copy_item t sp (t @ [x]) st = (None, st') \<and> merged st (t @ [x]) (File b) st'"
proof -
  from creat obtain fs2 where mk: "mkdir (fs st) t = Inr fs2"
    using mkdir_succeeds_iff [of "fs st" t] by blast
  note s2 = mkdir_stat [OF mk]
  from mkdir_lookup_other [OF mk nsp(1)] src have src2: "lookup fs2 sp = Some (File b)" by simp
  from empty [rule_format, of "[]"] have e0: "stat (fs st) (t @ [x]) = None" by simp
  have "is_dir fs2 (butlast (t @ [x]))" by (simp add: stat_is_dir s2)
  moreover have "\<not> is_dir fs2 (t @ [x])" by (simp add: stat_is_dir s2 e0)
  ultimately obtain fs3 where wr: "write_file fs2 (t @ [x]) b = Inr fs3"
    using write_file_succeeds [of "t @ [x]" fs2 b] by auto
  note s3 = write_file_stat [OF wr]
  from src2 nsp(2) wr have cp: "copyfile fs2 sp (t @ [x]) = Inr fs3"
    by (simp add: copyfile_def exists_path_def)
  let ?st' = "echo OK (st\<lparr>fs := fs3\<rparr>)"
  from mk cp have run: "copy_item t sp (t @ [x]) st = (None, ?st')"
    by (simp add: copy_item_def)
  have a: "stat fs3 q = Some Directory" if "strict_prefix q (t @ [x])" for q
  proof -
    from that have "prefix q t" "q \<noteq> t @ [x]" by (auto simp: strict_prefix_def)
    then show ?thesis by (simp add: s3 s2)
  qed
  have c: "stat fs3 ((t @ [x]) @ q) = None" if "q \<noteq> []" for q
  proof -
    from that have "(t @ [x]) @ q \<noteq> t @ [x]" "\<not> prefix ((t @ [x]) @ q) t" by auto
    then have "stat fs3 ((t @ [x]) @ q) = stat (fs st) ((t @ [x]) @ q)" by (simp only: s3 s2 if_False)
    with empty show ?thesis by simp
  qed
  have d: "stat fs3 q = stat (fs st) q" if "apart q (t @ [x])" for q
  proof -
    from that have "q \<noteq> t @ [x]" "\<not> prefix q t" by (auto simp: apart_def)
    then show ?thesis by (simp add: s3 s2)
  qed
  have "merged st (t @ [x]) (File b) ?st'"
    unfolding merged_def using a c d by (auto simp: s3 copy_stat_File)
  with run show ?thesis by blast
qed

lemma map_of_middle:
  assumes "x \<notin> fst ` set done"
  shows "map_of (done @ (x, c) # todo) x = Some c"
proof -
  from assms have "map_of done x = None" by (simp add: map_of_eq_None_iff)
  then show ?thesis by (simp add: map_add_def)
qed

lemma sync_loop_merged:
  assumes rec: "\<And>s t pfx ov st es.
      lookup (fs st) s = Some (Dir es) \<Longrightarrow> wf_node (Dir es) \<Longrightarrow> apart s t \<Longrightarrow>
      \<forall>q. prefix q t \<longrightarrow> \<not> is_file (fs st) q \<Longrightarrow>
      \<forall>q. q \<noteq> [] \<longrightarrow> stat (fs st) (t @ q) = None \<Longrightarrow> height (Dir es) \<le> n \<Longrightarrow>
      \<exists>st'. sync_dirs n s t pfx ov st = Some (None, st') \<and> merged st t (Dir es) st'"
    and ap: "apart s t"
    and creat0: "\<forall>q. prefix q t \<longrightarrow> \<not> is_file (fs st0) q"
  shows "lookup (fs st) s = Some (Dir (done @ todo)) \<Longrightarrow> wf_node (Dir (done @ todo)) \<Longrightarrow>
     height_list (done @ todo) \<le> n \<Longrightarrow> merged st0 t (Dir done) st \<Longrightarrow>
     \<exists>st'. sync_loop n t pfx ov [] [] (map (\<lambda>e. s @ [fst e]) todo) st = Some (None, st')
         \<and> merged st0 t (Dir (done @ todo)) st'"
proof (induction todo arbitrary: "done" st)
  case Nil
  then show ?case by simp
next
  case (Cons e todo)
  obtain x c where e: "e = (x, c)" by (cases e)
  let ?sp = "s @ [x]"
  let ?st1 = "echo (Creating pfx (t @ [x])) st"
  from Cons.prems(2) have new: "x \<notin> fst ` set done" and wfc: "wf_node c"
    by (auto simp: e)
  have mo: "map_of (done @ e # todo) x = Some c"
    unfolding e using new by (rule map_of_middle)
  have src: "lookup (fs st) ?sp = Some c"
    using Cons.prems(1) mo by (simp add: lookup_append)
  have creat: "\<forall>q. prefix q t \<longrightarrow> \<not> is_file (fs st) q"
    using Cons.prems(4) creat0 by (rule merged_creatable)
  have empty: "stat (fs st) ((t @ [x]) @ q) = None" for q
    using Cons.prems(4) new by (rule merged_nothing_at)
  have nr: "\<not> rule1 ov (name ?sp) [] [] (is_file (fs st) ?sp)" by (simp add: rule1_def)
  have next_step: "\<exists>st'. sync_loop n t pfx ov [] [] (map (\<lambda>e. s @ [fst e]) todo) st2 = Some (None, st')
         \<and> merged st0 t (Dir (done @ e # todo)) st'"
    if m: "merged st (t @ [x]) c st2" and keep: "lookup (fs st2) s = lookup (fs st) s" for st2
  proof -
    from merged_compose [OF Cons.prems(4) m new]
    have m': "merged st0 t (Dir (done @ [e])) st2" by (simp add: e)
    have "\<exists>st'. sync_loop n t pfx ov [] [] (map (\<lambda>e. s @ [fst e]) todo) st2 = Some (None, st')
         \<and> merged st0 t (Dir ((done @ [e]) @ todo)) st'"
      by (rule Cons.IH) (use Cons.prems keep m' in simp_all)
    then show ?thesis by simp
  qed
  show ?case
  proof (cases c)
    case (File b)
    with src have f: "is_file (fs st) ?sp" by (simp add: is_file_def)
    have "\<not> prefix ?sp t" "?sp \<noteq> t @ [x]" using ap by (auto simp: apart_def dest: append_prefixD)
    from copy_item_merged [of ?st1 ?sp b t x] this src File creat empty
    obtain st2 where c2: "copy_item t ?sp (t @ [x]) ?st1 = (None, st2)"
      and m: "merged st (t @ [x]) c st2" by auto
    have "apart s t" by (rule ap)
    from copy_item_frame [OF c2 this] have "lookup (fs st2) s = lookup (fs st) s" by simp
    from next_step [OF m this] nr f c2 show ?thesis
      by (simp add: e sync_loop_file [of ov "s @ [x]", simplified])
  next
    case (Dir ces)
    with src have nf: "\<not> is_file (fs st) ?sp" by (simp add: is_file_def)
    let ?st1' = "echo Newline ?st1"
    have h: "height (Dir ces) \<le> n"
    proof -
      have "height c \<le> height_list (done @ e # todo)"
        using mo by (rule height_child)
      with Cons.prems(3) Dir show ?thesis by simp
    qed
    have cr: "\<forall>q. prefix q (t @ [x]) \<longrightarrow> \<not> is_file (fs ?st1') q"
    proof (intro allI impI)
      fix q assume "prefix q (t @ [x])"
      then consider "q = t @ [x]" | "prefix q t" by auto
      then show "\<not> is_file (fs ?st1') q"
      proof cases
        case 1
        with empty [of "[]"] show ?thesis by (simp add: stat_is_file)
      next
        case 2
        with creat show ?thesis by simp
      qed
    qed
    have "\<exists>st'. sync_dirs n ?sp (t @ [x]) (pfx @ ''  '') False ?st1' = Some (None, st')
        \<and> merged ?st1' (t @ [x]) (Dir ces) st'"
      by (rule rec) (use src Dir wfc ap cr empty h in \<open>simp_all add: apart_child_other\<close>)
    then obtain st2 where c2: "sync_dirs n ?sp (t @ [x]) (pfx @ ''  '') False ?st1' = Some (None, st2)"
      and m: "merged st (t @ [x]) c st2" by (auto simp: Dir)
    have "apart s (t @ [x])" using ap by (rule apart_snoc_right)
    from sync_dirs_frame' [OF c2 this] have "lookup (fs st2) s = lookup (fs st) s" by simp
    from next_step [OF m this] nr nf c2 show ?thesis
      by (simp add: e sync_loop_dir [of ov "s @ [x]", simplified])
  qed
qed

lemma nothing_below_iterdir:
  assumes "\<forall>q. q \<noteq> [] \<longrightarrow> stat n (t @ q) = None"
  shows "iterdir n t = []"
proof (rule ccontr)
  assume "iterdir n t \<noteq> []"
  then obtain sp where sp: "sp \<in> set (iterdir n t)" by (cases "iterdir n t") auto
  then obtain es x c where es: "lookup n t = Some (Dir es)" "(x, c) \<in> set es"
    unfolding iterdir_def by (cases "lookup n t") (auto split: node.splits)
  then have "x \<in> fst ` set es" by force
  then have "map_of es x \<noteq> None" by (simp add: map_of_eq_None_iff)
  then obtain c' where "map_of es x = Some c'" by auto
  with \<open>lookup n t = Some (Dir es)\<close> have "lookup n (t @ [x]) = Some c'"
    by (simp add: lookup_append)
  with assms [rule_format, of "[x]"] show False by (simp add: stat_None)
qed

lemma iterdir_Dir: "lookup n s = Some (Dir es) \<Longrightarrow> iterdir n s = map (\<lambda>e. s @ [fst e]) es"
  by (simp add: iterdir_def)

lemma sync_dirs_merged:
  "lookup (fs st) s = Some (Dir es) \<Longrightarrow> wf_node (Dir es) \<Longrightarrow> apart s t \<Longrightarrow>
   \<forall>q. prefix q t \<longrightarrow> \<not> is_file (fs st) q \<Longrightarrow>
   \<forall>q. q \<noteq> [] \<longrightarrow> stat (fs st) (t @ q) = None \<Longrightarrow> height (Dir es) \<le> n \<Longrightarrow>
   \<exists>st'. sync_dirs n s t pfx ov st = Some (None, st') \<and> merged st t (Dir es) st'"
proof (induction n arbitrary: s t pfx ov st es)
  case 0
  then show ?case by simp
next
  case (Suc n)
  from Suc.prems(1) have d: "is_dir (fs st) s" by (simp add: is_dir_def)
  have ex: "(if is_dir (fs st) t then iterdir (fs st) t else []) = []"
    using nothing_below_iterdir [OF Suc.prems(5)] by simp
  have "\<exists>st'. sync_loop n t pfx ov [] [] (map (\<lambda>e. s @ [fst e]) es) st = Some (None, st')
         \<and> merged st t (Dir ([] @ es)) st'"
  proof (rule sync_loop_merged [where st0 = st and ?done = "[]"])
    fix s t pfx ov es and st :: state
    assume "lookup (fs st) s = Some (Dir es)" "wf_node (Dir es)" "apart s t"
      "\<forall>q. prefix q t \<longrightarrow> \<not> is_file (fs st) q"
      "\<forall>q. q \<noteq> [] \<longrightarrow> stat (fs st) (t @ q) = None" "height (Dir es) \<le> n"
    then show "\<exists>st'. sync_dirs n s t pfx ov st = Some (None, st') \<and> merged st t (Dir es) st'"
      by (rule Suc.IH)
  next
    show "apart s t" by (rule Suc.prems(3))
    show "\<forall>q. prefix q t \<longrightarrow> \<not> is_file (fs st) q" by (rule Suc.prems(4))
    show "lookup (fs st) s = Some (Dir ([] @ es))" using Suc.prems(1) by simp
    show "wf_node (Dir ([] @ es))" using Suc.prems(2) by simp
    show "merged st t (Dir []) st" using Suc.prems(5) by (rule merged_start)
    show "height_list ([] @ es) \<le> n" using Suc.prems(6) by simp
  qed
  then show ?case
    unfolding sync_dirs_Suc ex using d by (simp add: iterdir_Dir [OF Suc.prems(1)])
qed


lemma can_mkdir_iff: "can_mkdir n p \<longleftrightarrow> (\<forall>q. prefix q p \<longrightarrow> \<not> is_file n q)"
  using mkdir_succeeds_iff [of n p] by (auto simp: can_mkdir_def split: sum.splits)

lemma nothing_below:
  assumes "iterdir n t = []" and "\<not> is_file n t" and "q \<noteq> []"
  shows "stat n (t @ q) = None"
proof (cases "lookup n t")
  case None
  then show ?thesis by (simp add: stat_def lookup_append)
next
  case (Some c)
  with assms(2) obtain es where c: "c = Dir es" by (cases c) (auto simp: is_file_def)
  with Some assms(1) have "es = []" by (simp add: iterdir_def)
  with Some c assms(3) show ?thesis by (simp add: stat_def lookup_append lookup_empty_dir)
qed

section \<open>Properties of the search for a child pipeline\<close>

lemma is_dir_above: "lookup n (p @ q) \<noteq> None \<Longrightarrow> q \<noteq> [] \<Longrightarrow> is_dir n p"
  by (cases "lookup n p"; cases q)
     (auto simp: lookup_append is_dir_def lookup_File split: node.splits)

lemma is_dir_lookup: "is_dir n p \<Longrightarrow> \<exists>es. lookup n p = Some (Dir es)"
  by (cases "lookup n p") (auto simp: is_dir_def split: node.splits)

lemma walk_list_mem:
  "(x, c) \<in> set es \<Longrightarrow> (q, m) \<in> set (walk c) \<Longrightarrow> (x # q, m) \<in> set (walk_list es)"
  by (induction es) force+

lemma walk_mem: "lookup n p = Some (Dir es) \<Longrightarrow> (p, Dir es) \<in> set (walk n)"
proof (induction p arbitrary: n)
  case Nil
  then show ?case by simp
next
  case (Cons x p)
  from Cons.prems obtain es0 c where n: "n = Dir es0" and c: "map_of es0 x = Some c"
    and l: "lookup c p = Some (Dir es)"
    by (cases n) (auto split: option.splits)
  from c have "(x, c) \<in> set es0" by (rule map_of_SomeD)
  from walk_list_mem [OF this Cons.IH [OF l]] n show ?case by simp
qed

lemma resolve_append:
  "resolve root cur (cs @ cs') =
     (case resolve root cur cs of Inl e \<Rightarrow> Inl e | Inr q \<Rightarrow> resolve root q cs')"
  by (induction cs arbitrary: cur) (auto split: option.splits node.splits)

lemma Path_lookup_entry:
  assumes "Path_lookup root d = Some (Dir es)" and "x \<noteq> ''..''"
  shows "Path_lookup root (fst d, snd d @ [x]) = map_of es x"
proof -
  from assms(1) obtain q where q: "resolve root [] (snd d) = Inr q"
    and l: "lookup root q = Some (Dir es)"
    by (auto simp: Path_lookup_def split: sum.splits)
  with assms(2) show ?thesis
    by (simp add: Path_lookup_def resolve_append lookup_append split: option.splits)
qed

lemma glob_dirs_mem:
  assumes "Path_lookup root d = Some (Dir es)" and "map_of es x = Some (Dir es')"
  shows "(fst d, snd d @ [x]) \<in> set (glob_dirs root d)"
proof -
  from assms(2) have "(x, Dir es') \<in> set es" by (rule map_of_SomeD)
  then have "\<exists>entry \<in> set (scandir (Dir es)). entry_is_dir entry \<and> fst entry = x"
    by (force simp: scandir_def entry_is_dir_def)
  moreover have "([], Dir es) \<in> set (walk (Dir es))" by simp
  ultimately show ?thesis using assms(1)
    unfolding glob_dirs_def by (simp del: walk.simps) force
qed

lemma glob_py_mem:
  assumes "Path_lookup root d = Some (Dir es)" and "lookup (Dir es) (q @ [f]) \<noteq> None"
    and "suffix ''.py'' f"
  shows "(fst d, snd d @ q @ [f]) \<in> set (glob_py root d)"
proof -
  from is_dir_above [OF assms(2)] obtain es' where es': "lookup (Dir es) q = Some (Dir es')"
    by (auto dest: is_dir_lookup)
  with assms(2) obtain c where "map_of es' f = Some c"
    by (auto simp: lookup_append split: option.splits)
  then have "(f, c) \<in> set es'" by (rule map_of_SomeD)
  then have "\<exists>entry \<in> set (scandir (Dir es')). suffix ''.py'' (fst entry) \<and> fst entry = f"
    using assms(3) by (force simp: scandir_def)
  moreover from walk_mem [OF es'] have "(q, Dir es') \<in> set (walk (Dir es))" .
  ultimately show ?thesis using assms(1)
    unfolding glob_py_def by (simp del: walk.simps) force
qed

lemma glob_below:
  "p \<in> set (glob_dirs root d) \<or> p \<in> set (glob_py root d) \<Longrightarrow>
     \<exists>q. q \<noteq> [] \<and> p = (fst d, snd d @ q)"
  by (auto simp: glob_dirs_def glob_py_def split: option.splits node.splits)

lemma nested_for_mem:
  "a \<in> set xs \<Longrightarrow> b \<in> set (f a) \<Longrightarrow> c \<in> set (g b) \<Longrightarrow>
     (a, c) \<in> set [(a', c'). a' \<leftarrow> xs, b' \<leftarrow> f a', c' \<leftarrow> g b']"
  by auto

lemma nested_for_elem:
  "(a, c) \<in> set [(a', c'). a' \<leftarrow> xs, b' \<leftarrow> f a', c' \<leftarrow> g b'] \<Longrightarrow>
     a \<in> set xs \<and> (\<exists>b \<in> set (f a). c \<in> set (g b))"
  by auto

section \<open>The items of a call, one after the other\<close>

lemma followers_notin: "e \<notin> set evs \<Longrightarrow> followers e evs = []"
  by (induction e evs rule: followers.induct) auto

lemma followers_append:
  "evs1 = [] \<or> last evs1 \<noteq> e \<Longrightarrow> followers e (evs1 @ evs2) = followers e evs1 @ followers e evs2"
proof (induction evs1)
  case Nil
  show ?case by simp
next
  case (Cons x evs1)
  show ?case
  proof (cases evs1)
    case Nil
    with Cons.prems show ?thesis by (cases evs2) auto
  next
    case (Cons y ys)
    with Cons.IH Cons.prems show ?thesis by simp
  qed
qed

lemma sync_loop_next:
  "sync_loop n t pfx ov ef ed (sp # rest) st =
     (case sync_loop n t pfx ov ef ed [sp] st of
        None \<Rightarrow> None
      | Some (Some e, st2) \<Rightarrow> Some (Some e, st2)
      | Some (None, st2) \<Rightarrow> sync_loop n t pfx ov ef ed rest st2)"
  by (simp add: Let_def split: option.splits prod.splits)

lemma sync_loop_append:
  "sync_loop n t pfx ov ef ed (xs @ ys) st =
     (case sync_loop n t pfx ov ef ed xs st of
        None \<Rightarrow> None
      | Some (Some e, st2) \<Rightarrow> Some (Some e, st2)
      | Some (None, st2) \<Rightarrow> sync_loop n t pfx ov ef ed ys st2)"
proof (induction xs arbitrary: st)
  case Nil
  show ?case by simp
next
  case (Cons x xs)
  show ?case
    by (simp only: append_Cons) (subst sync_loop_next, subst (2) sync_loop_next,
      simp add: Cons.IH split: option.splits prod.splits)
qed

lemma sync_dirs_loop:
  "sync_dirs (Suc n) source target pfx overwrite st =
     sync_loop n target pfx overwrite
       (existing_files_in (fs st) target) (existing_folders_in (fs st) target)
       (content_of (fs st) source) st"
  by (simp only: sync_dirs_Suc existing_files_in_def existing_folders_in_def content_of_def)

lemma existing_files_iff: "f \<in> set (existing_files_in n t) \<longleftrightarrow> is_file n (t @ [f])"
  unfolding existing_files_in_def
proof
  assume "f \<in> set (map name (filter (is_file n) (if is_dir n t then iterdir n t else [])))"
  then obtain p where p: "p \<in> set (iterdir n t)" "is_file n p" "name p = f"
    by (auto split: if_splits)
  from iterdir_children [OF p(1)] obtain x where "p = t @ [x]" by blast
  with p show "is_file n (t @ [f])" by simp
qed (rule existing_files_mem)

lemma copy_item_out:
  "copy_item t sp tp st = (r, st') \<Longrightarrow> out st' = out st @ [if r = None then OK else FAILED]"
  by (erule copy_item_cases) auto

lemma sync_dirs_creating_below:
  assumes "sync_dirs n s t pfx ov st = Some (r, st')"
  shows "\<exists>evs. out st' = out st @ evs \<and> (\<forall>pf p. Creating pf p \<in> set evs \<longrightarrow> strict_prefix t p)"
proof -
  define R :: "path \<Rightarrow> state \<Rightarrow> error option \<Rightarrow> state \<Rightarrow> bool" where
    "R = (\<lambda>t a r b. \<exists>evs. out b = out a @ evs \<and>
            (\<forall>pf p. Creating pf p \<in> set evs \<longrightarrow> strict_prefix t p))"
  have "R t st r st'"
  proof (rule sync_dirs_rel [where R = R, OF _ _ _ _ _ assms])
    fix t st show "R t st None st" by (simp add: R_def)
  next
    fix t a b r c assume "R t a None b" "R t b r c"
    then show "R t a r c" unfolding R_def by (elim exE conjE) (rule exI [of _ "_ @ _"], auto)
  next
    fix t pfx x and st :: state
    show "R t st None (echo SKIPPED (echo (Creating pfx (t @ [x])) st))"
      by (auto simp: R_def strict_prefix_def)
  next
    fix t pfx sp x r st' and st :: state
    assume "copy_item t sp (t @ [x]) (echo (Creating pfx (t @ [x])) st) = (r, st')"
    from copy_item_out [OF this] show "R t st r st'" by (auto simp: R_def strict_prefix_def)
  next
    fix t pfx x r st' and st :: state
    assume "R (t @ [x]) (echo Newline (echo (Creating pfx (t @ [x])) st)) r st'"
    then obtain evs where e: "out st' = out st @ [Creating pfx (t @ [x]), Newline] @ evs"
      and b: "\<forall>pf p. Creating pf p \<in> set evs \<longrightarrow> strict_prefix (t @ [x]) p"
      by (auto simp: R_def)
    from b have "\<forall>pf p. Creating pf p \<in> set evs \<longrightarrow> strict_prefix t p"
      by (auto simp: strict_prefix_def prefix_def)
    with e show "R t st r st'" unfolding R_def
      by (intro exI [of _ "[Creating pfx (t @ [x]), Newline] @ evs"]) (auto simp: strict_prefix_def)
  qed
  then show ?thesis by (simp add: R_def)
qed

lemma sync_loop_keeps_is_dir:
  assumes "sync_loop n t pfx ov ef ed items st = Some (r, st')" and "is_dir (fs st) q"
  shows "is_dir (fs st') q"
proof -
  define R :: "path \<Rightarrow> state \<Rightarrow> error option \<Rightarrow> state \<Rightarrow> bool" where
    "R = (\<lambda>t a r b. \<forall>q. is_dir (fs a) q \<longrightarrow> is_dir (fs b) q)"
  have "R t st r st'"
  proof (rule sync_loop_rel [where R = R, OF _ _ _ _ _ _ assms(1)])
    fix s t pfx ov st r st'
    assume "sync_dirs n s t pfx ov st = Some (r, st')"
    then show "R t st r st'" by (auto simp: R_def intro: sync_dirs_keeps_is_dir)
  qed (auto simp: R_def intro: copy_item_keeps_is_dir)
  with assms(2) show ?thesis by (simp add: R_def)
qed

lemma sync_loop_one_followers:
  assumes run: "sync_loop n t pfx ov ef ed [x] st = Some (r, st')"
    and dir: "name x = k \<longrightarrow> is_dir (fs st) x"
  shows "\<exists>evs. out st' = out st @ evs \<and> evs \<noteq> [] \<and> last evs \<noteq> Creating pfx (t @ [k]) \<and>
           followers (Creating pfx (t @ [k])) evs =
             (if name x = k then [if \<not> ov \<and> k \<in> set ef then SKIPPED else Newline] else [])"
proof -
  let ?c = "Creating pfx (t @ [name x])"
  let ?st1 = "echo ?c st"
  from dir have nf: "name x = k \<Longrightarrow> \<not> is_file (fs st) x"
    by (auto simp: is_dir_def is_file_def split: option.splits node.splits)
  consider (skipped) "rule1 ov (name x) ef ed (is_file (fs st) x)"
    | (copied) "\<not> rule1 ov (name x) ef ed (is_file (fs st) x)" "is_file (fs st) x"
    | (entered) "\<not> rule1 ov (name x) ef ed (is_file (fs st) x)" "\<not> is_file (fs st) x"
    by blast
  then show ?thesis
  proof cases
    case skipped
    with run have "st' = echo SKIPPED ?st1" by (simp add: sync_loop_skip)
    moreover from skipped nf have "name x = k \<Longrightarrow> \<not> ov \<and> k \<in> set ef" by (auto simp: rule1_def)
    ultimately show ?thesis by (intro exI [of _ "[?c, SKIPPED]"]) auto
  next
    case copied
    obtain r2 st2 where c: "copy_item t x (t @ [name x]) ?st1 = (r2, st2)"
      by (cases "copy_item t x (t @ [name x]) ?st1")
    with run copied have "st' = st2" by (cases r2) (simp_all add: sync_loop_file)
    with copy_item_out [OF c] have "out st' = out st @ [?c, if r2 = None then OK else FAILED]"
      by simp
    moreover from copied nf have "name x \<noteq> k" by auto
    ultimately show ?thesis
      by (intro exI [of _ "[?c, if r2 = None then OK else FAILED]"]) auto
  next
    case entered
    let ?st2 = "echo Newline ?st1"
    from run entered obtain r2 st2 where
      c: "sync_dirs n x (t @ [name x]) (pfx @ ''  '') False ?st2 = Some (r2, st2)"
      by (cases "sync_dirs n x (t @ [name x]) (pfx @ ''  '') False ?st2")
         (auto simp: sync_loop_dir)
    with run entered have "st' = st2" by (cases r2) (simp_all add: sync_loop_dir)
    with sync_dirs_creating_below [OF c] obtain evs where
      e: "out st' = out st @ [?c, Newline] @ evs"
      and b: "\<forall>pf p. Creating pf p \<in> set evs \<longrightarrow> strict_prefix (t @ [name x]) p"
      by auto
    from b have notin: "Creating pfx (t @ [k]) \<notin> set evs"
      by (auto simp: strict_prefix_def prefix_def)
    then have la: "last ([?c, Newline] @ evs) \<noteq> Creating pfx (t @ [k])"
      by (cases "evs = []") (auto dest: last_in_set)
    from entered have x: "name x = k \<Longrightarrow> \<not> (\<not> ov \<and> k \<in> set ef)" by (auto simp: rule1_def)
    have "followers (Creating pfx (t @ [k])) ([?c, Newline] @ evs) =
            (if name x = k then [if \<not> ov \<and> k \<in> set ef then SKIPPED else Newline] else [])"
      using followers_notin [OF notin] notin x by (cases evs) auto
    with e la show ?thesis by (intro exI [of _ "[?c, Newline] @ evs"]) simp
  qed
qed

lemma sync_loop_followers:
  "\<forall>x \<in> set items. name x = k \<longrightarrow> is_dir (fs st) x \<Longrightarrow>
   sync_loop n t pfx ov ef ed items st = Some (r, st') \<Longrightarrow>
   \<exists>evs. out st' = out st @ evs \<and> (evs = [] \<or> last evs \<noteq> Creating pfx (t @ [k])) \<and>
      set (followers (Creating pfx (t @ [k])) evs)
        \<subseteq> {if \<not> ov \<and> k \<in> set ef then SKIPPED else Newline} \<and>
      (r = None \<longrightarrow> k \<in> name ` set items \<longrightarrow>
         (if \<not> ov \<and> k \<in> set ef then SKIPPED else Newline)
           \<in> set (followers (Creating pfx (t @ [k])) evs))"
proof (induction items arbitrary: st)
  case Nil
  then show ?case by simp
next
  case (Cons x rest)
  let ?c = "Creating pfx (t @ [k])"
  let ?X = "if \<not> ov \<and> k \<in> set ef then SKIPPED else Newline"
  from Cons.prems(2) obtain r1 st1 where
    one: "sync_loop n t pfx ov ef ed [x] st = Some (r1, st1)"
    by (subst (asm) sync_loop_next) (auto split: option.splits)
  from Cons.prems(1) have "name x = k \<longrightarrow> is_dir (fs st) x" by simp
  from sync_loop_one_followers [OF one this] obtain evs1 where
    e1: "out st1 = out st @ evs1" "evs1 \<noteq> []" "last evs1 \<noteq> ?c"
    "followers ?c evs1 = (if name x = k then [?X] else [])"
    by blast
  show ?case
  proof (cases r1)
    case (Some e)
    with Cons.prems(2) one have "r = Some e" "st' = st1"
      by (subst (asm) sync_loop_next, simp)+
    with e1 show ?thesis by (intro exI [of _ evs1]) auto
  next
    case None
    with Cons.prems(2) one have rest: "sync_loop n t pfx ov ef ed rest st1 = Some (r, st')"
      by (subst (asm) sync_loop_next) simp
    have "\<forall>y \<in> set rest. name y = k \<longrightarrow> is_dir (fs st1) y"
      using Cons.prems(1) sync_loop_keeps_is_dir [OF one] by auto
    from Cons.IH [OF this rest] obtain evs2 where
      e2: "out st' = out st1 @ evs2" "evs2 = [] \<or> last evs2 \<noteq> ?c"
      "set (followers ?c evs2) \<subseteq> {?X}"
      "r = None \<longrightarrow> k \<in> name ` set rest \<longrightarrow> ?X \<in> set (followers ?c evs2)"
      by blast
    have f: "followers ?c (evs1 @ evs2) = followers ?c evs1 @ followers ?c evs2"
      using e1(3) by (intro followers_append) simp
    have l: "evs1 @ evs2 = [] \<or> last (evs1 @ evs2) \<noteq> ?c"
      using e1(2,3) e2(2) by (cases "evs2 = []") auto
    show ?thesis
    proof (intro exI [of _ "evs1 @ evs2"] conjI)
      show "out st' = out st @ evs1 @ evs2" using e1(1) e2(1) by simp
      show "evs1 @ evs2 = [] \<or> last (evs1 @ evs2) \<noteq> ?c" by (rule l)
      show "set (followers ?c (evs1 @ evs2)) \<subseteq> {?X}"
        unfolding f using e1(4) e2(3) by (auto split: if_splits)
      show "r = None \<longrightarrow> k \<in> name ` set (x # rest) \<longrightarrow> ?X \<in> set (followers ?c (evs1 @ evs2))"
        unfolding f using e1(4) e2(4) by (auto split: if_splits)
    qed
  qed
qed

lemma directory_item_output:
  assumes run: "sync_dirs (Suc n) source target pfx overwrite st = Some (r, st')"
    and d: "d \<in> set (iterdir (fs st) source)" "is_dir (fs st) d"
  shows "\<exists>evs. out st' = out st @ evs \<and>
           set (followers (Creating pfx (target @ [name d])) evs)
             \<subseteq> {if \<not> overwrite \<and> is_file (fs st) (target @ [name d]) then SKIPPED else Newline} \<and>
           (r = None \<longrightarrow>
              (if \<not> overwrite \<and> is_file (fs st) (target @ [name d]) then SKIPPED else Newline)
                \<in> set (followers (Creating pfx (target @ [name d])) evs))"
proof -
  let ?ef = "existing_files_in (fs st) target"
  let ?ed = "map name (filter (is_dir (fs st))
               (if is_dir (fs st) target then iterdir (fs st) target else []))"
  from d(1) have sd: "is_dir (fs st) source" by (rule iterdir_is_dir)
  with run have loop: "sync_loop n target pfx overwrite ?ef ?ed (iterdir (fs st) source) st = Some (r, st')"
    by (simp only: sync_dirs_Suc if_True existing_files_in_def)
  have "\<forall>x \<in> set (iterdir (fs st) source). name x = name d \<longrightarrow> is_dir (fs st) x"
  proof (intro ballI impI)
    fix x assume x: "x \<in> set (iterdir (fs st) source)" "name x = name d"
    from iterdir_children [OF x(1)] iterdir_children [OF d(1)] x(2) have "x = d"
      by auto
    with d(2) show "is_dir (fs st) x" by simp
  qed
  from sync_loop_followers [OF this loop] d(1) show ?thesis
    unfolding existing_files_iff by (elim exE conjE) (rule exI, auto)
qed

lemma arrives_raises:
  "arrives n s t pfx ov st point \<Longrightarrow>
     copy_item (fst point) (fst (snd point)) (fst point @ [name (fst (snd point))]) (snd (snd point))
       = (Some e, st2) \<Longrightarrow>
     sync_dirs n s t pfx ov st = Some (Some e, st2)"
  "arrives_loop n t pfx ov ef ed items st point \<Longrightarrow>
     copy_item (fst point) (fst (snd point)) (fst point @ [name (fst (snd point))]) (snd (snd point))
       = (Some e, st2) \<Longrightarrow>
     sync_loop n t pfx ov ef ed items st = Some (Some e, st2)"
proof (induction rule: arrives_arrives_loop.inducts)
  case (call n target pfx overwrite st source point)
  then show ?case
    by (simp only: sync_dirs_Suc existing_files_in_def existing_folders_in_def content_of_def)
next
  case (this_item overwrite source_path existing_files existing_folders st n target pfx rest)
  then show ?case by (simp add: sync_loop_file)
next
  case (below overwrite source_path existing_files existing_folders st n target pfx point rest)
  then show ?case by (simp add: sync_loop_dir)
next
  case (later n target pfx overwrite existing_files existing_folders source_path st st2' rest point)
  then show ?case by (subst sync_loop_next) simp
qed

section \<open>The merge-copier: skipping, overwriting, failing\<close>

text \<open>
  C1. Claimed: a source item that is a directory is never skipped, whatever the target
  holds under its name. In the tree \<open>fs_dir_meets_file\<close> the source has the directory
  \<open>d\<close> and the target has the regular file \<open>d\<close>; without \<open>overwrite\<close> the call reports
  \<open>d\<close> as skipped and does not enter it: nothing is printed for \<open>d/g.txt\<close>, and the
  file system is as before.
\<close>

theorem sync_dirs_skips_directory:
  "is_dir fs_dir_meets_file [''src'', ''d''] \<and>
   is_file fs_dir_meets_file [''tgt'', ''d''] \<and>
   sync_dirs 2 [''src''] [''tgt''] [] False \<lparr>fs = fs_dir_meets_file, out = []\<rparr> =
     Some (None,
       \<lparr>fs = fs_dir_meets_file,
        out = [Creating [] [''tgt'', ''d''], SKIPPED,
               Creating [] [''tgt'', ''f.txt''], SKIPPED]\<rparr>)"
  by code_simp

text \<open>
  C1, amended. Let \<open>d\<close> be an item of the source directory that is a directory. When the
  loop of a call comes to \<open>d\<close>, the items listed before it having been handled without
  an exception, the call skips \<open>d\<close> exactly when its flag \<open>overwrite\<close> is false and the
  target directory held, when the call started, a regular file of the name of \<open>d\<close>: it
  prints \<open>SKIPPED\<close> and goes on with the items after \<open>d\<close>. In every other case (a
  directory of that name in the target, nothing of that name, or \<open>overwrite\<close> set) it
  prints a newline and calls itself for \<open>d\<close> and the path of that name in the target;
  an exception of that call ends the call, and otherwise the loop goes on with the items
  after \<open>d\<close>, from the state that the inner call has left. The flag is the one of the
  call itself: the calls that the function makes of itself all run with \<open>overwrite\<close>
  false. In what the call prints, the \<open>Creating\<close> piece of \<open>d\<close> is accordingly followed
  by \<open>SKIPPED\<close> and never by the newline in the first case, by the newline and never by
  \<open>SKIPPED\<close> in the others; and it is printed whenever the call returns.
\<close>

theorem sync_dirs_directory_item:
  assumes "iterdir (fs st) source = before @ d # rest" and "is_dir (fs st) d"
  shows "sync_dirs (Suc n) source target pfx overwrite st =
     (case sync_loop n target pfx overwrite
             (existing_files_in (fs st) target) (existing_folders_in (fs st) target) before st of
        None \<Rightarrow> None
      | Some (Some e, st0) \<Rightarrow> Some (Some e, st0)
      | Some (None, st0) \<Rightarrow>
          if \<not> overwrite \<and> is_file (fs st) (target @ [name d])
          then sync_loop n target pfx overwrite
                 (existing_files_in (fs st) target) (existing_folders_in (fs st) target) rest
                 (echo SKIPPED (echo (Creating pfx (target @ [name d])) st0))
          else (case sync_dirs n d (target @ [name d]) (pfx @ ''  '') False
                       (echo Newline (echo (Creating pfx (target @ [name d])) st0)) of
                  None \<Rightarrow> None
                | Some (Some e, st2) \<Rightarrow> Some (Some e, st2)
                | Some (None, st2) \<Rightarrow>
                    sync_loop n target pfx overwrite
                      (existing_files_in (fs st) target) (existing_folders_in (fs st) target)
                      rest st2)) \<and>
   (\<forall>r st'. sync_dirs (Suc n) source target pfx overwrite st = Some (r, st') \<longrightarrow>
      (\<exists>evs. out st' = out st @ evs \<and>
         set (followers (Creating pfx (target @ [name d])) evs)
           \<subseteq> {if \<not> overwrite \<and> is_file (fs st) (target @ [name d]) then SKIPPED else Newline} \<and>
         (r = None \<longrightarrow>
            (if \<not> overwrite \<and> is_file (fs st) (target @ [name d]) then SKIPPED else Newline)
              \<in> set (followers (Creating pfx (target @ [name d])) evs))))"
proof (intro conjI allI impI)
  let ?ef = "existing_files_in (fs st) target"
  let ?ed = "existing_folders_in (fs st) target"
  from assms(1) have "d \<in> set (iterdir (fs st) source)" by simp
  then have "is_dir (fs st) source" by (rule iterdir_is_dir)
  with assms(1) have c: "content_of (fs st) source = before @ d # rest"
    by (simp add: content_of_def)
  have eq: "sync_dirs (Suc n) source target pfx overwrite st =
     (case sync_loop n target pfx overwrite ?ef ?ed before st of
        None \<Rightarrow> None
      | Some (Some e, st0) \<Rightarrow> Some (Some e, st0)
      | Some (None, st0) \<Rightarrow> sync_loop n target pfx overwrite ?ef ?ed (d # rest) st0)"
    by (simp only: sync_dirs_loop c sync_loop_append)
  show "sync_dirs (Suc n) source target pfx overwrite st =
     (case sync_loop n target pfx overwrite ?ef ?ed before st of
        None \<Rightarrow> None
      | Some (Some e, st0) \<Rightarrow> Some (Some e, st0)
      | Some (None, st0) \<Rightarrow>
          if \<not> overwrite \<and> is_file (fs st) (target @ [name d])
          then sync_loop n target pfx overwrite ?ef ?ed rest
                 (echo SKIPPED (echo (Creating pfx (target @ [name d])) st0))
          else (case sync_dirs n d (target @ [name d]) (pfx @ ''  '') False
                       (echo Newline (echo (Creating pfx (target @ [name d])) st0)) of
                  None \<Rightarrow> None
                | Some (Some e, st2) \<Rightarrow> Some (Some e, st2)
                | Some (None, st2) \<Rightarrow> sync_loop n target pfx overwrite ?ef ?ed rest st2))"
  proof (cases "sync_loop n target pfx overwrite ?ef ?ed before st")
    case None
    then show ?thesis unfolding eq by (simp only: option.case)
  next
    case (Some res)
    obtain r0 st0 where res: "res = (r0, st0)" by (cases res)
    show ?thesis
    proof (cases r0)
      case (Some e)
      with \<open>sync_loop n target pfx overwrite ?ef ?ed before st = Some res\<close> res
      have "sync_loop n target pfx overwrite ?ef ?ed before st = Some (Some e, st0)" by simp
      then show ?thesis unfolding eq by (simp only: option.case prod.case)
    next
      case None
      with \<open>sync_loop n target pfx overwrite ?ef ?ed before st = Some res\<close> res
      have b: "sync_loop n target pfx overwrite ?ef ?ed before st = Some (None, st0)" by simp
      from sync_loop_keeps_is_dir [OF b assms(2)] have dd: "is_dir (fs st0) d" .
      then have nf: "\<not> is_file (fs st0) d"
        by (auto simp: is_dir_def is_file_def split: option.splits node.splits)
      have r1: "rule1 overwrite (name d) ?ef ?ed (is_file (fs st0) d)
                  \<longleftrightarrow> \<not> overwrite \<and> is_file (fs st) (target @ [name d])"
        using nf by (simp add: rule1_def existing_files_iff)
      have "sync_loop n target pfx overwrite ?ef ?ed (d # rest) st0 =
          (if \<not> overwrite \<and> is_file (fs st) (target @ [name d])
           then sync_loop n target pfx overwrite ?ef ?ed rest
                  (echo SKIPPED (echo (Creating pfx (target @ [name d])) st0))
           else (case sync_dirs n d (target @ [name d]) (pfx @ ''  '') False
                        (echo Newline (echo (Creating pfx (target @ [name d])) st0)) of
                   None \<Rightarrow> None
                 | Some (Some e, st2) \<Rightarrow> Some (Some e, st2)
                 | Some (None, st2) \<Rightarrow> sync_loop n target pfx overwrite ?ef ?ed rest st2))"
      proof (cases "\<not> overwrite \<and> is_file (fs st) (target @ [name d])")
        case True
        with r1 have r: "rule1 overwrite (name d) ?ef ?ed (is_file (fs st0) d)" by simp
        from True have c: "(\<not> overwrite \<and> is_file (fs st) (target @ [name d])) = True" by simp
        show ?thesis unfolding c if_True by (rule sync_loop_skip) (rule r)
      next
        case False
        with r1 have r: "\<not> rule1 overwrite (name d) ?ef ?ed (is_file (fs st0) d)" by simp
        from False have c: "(\<not> overwrite \<and> is_file (fs st) (target @ [name d])) = False" by simp
        show ?thesis unfolding c if_False by (rule sync_loop_dir) (rule r, rule nf)
      qed
      then show ?thesis unfolding eq by (simp only: b option.case prod.case)
    qed
  qed
next
  fix r st'
  assume run: "sync_dirs (Suc n) source target pfx overwrite st = Some (r, st')"
  from assms(1) have "d \<in> set (iterdir (fs st) source)" by simp
  from directory_item_output [OF run this assms(2)]
  show "\<exists>evs. out st' = out st @ evs \<and>
         set (followers (Creating pfx (target @ [name d])) evs)
           \<subseteq> {if \<not> overwrite \<and> is_file (fs st) (target @ [name d]) then SKIPPED else Newline} \<and>
         (r = None \<longrightarrow>
            (if \<not> overwrite \<and> is_file (fs st) (target @ [name d]) then SKIPPED else Newline)
              \<in> set (followers (Creating pfx (target @ [name d])) evs))" .
qed

theorem sync_dirs_directory_item_witness:
  "iterdir fs_dir_meets_file [''src''] = [] @ [''src'', ''d''] # [[''src'', ''f.txt'']] \<and>
   is_dir fs_dir_meets_file [''src'', ''d''] \<and>
   is_file fs_dir_meets_file [''tgt'', ''d''] \<and>
   sync_dirs (Suc 1) [''src''] [''tgt''] [] False \<lparr>fs = fs_dir_meets_file, out = []\<rparr> =
     sync_loop 1 [''tgt''] [] False
       (existing_files_in fs_dir_meets_file [''tgt''])
       (existing_folders_in fs_dir_meets_file [''tgt''])
       [[''src'', ''f.txt'']]
       \<lparr>fs = fs_dir_meets_file, out = [Creating [] [''tgt'', ''d''], SKIPPED]\<rparr> \<and>
   sync_dirs (Suc 1) [''src''] [''tgt''] [] False \<lparr>fs = fs_dir_meets_file, out = []\<rparr> =
     Some (None,
       \<lparr>fs = fs_dir_meets_file,
        out = [Creating [] [''tgt'', ''d''], SKIPPED,
               Creating [] [''tgt'', ''f.txt''], SKIPPED]\<rparr>) \<and>
   (\<exists>evs. [Creating [] [''tgt'', ''d''], SKIPPED, Creating [] [''tgt'', ''f.txt''], SKIPPED] = evs \<and>
      set (followers (Creating [] [''tgt'', ''d'']) evs) \<subseteq> {SKIPPED} \<and>
      SKIPPED \<in> set (followers (Creating [] [''tgt'', ''d'']) evs))"
proof -
  let ?st = "\<lparr>fs = fs_dir_meets_file, out = []\<rparr>"
  let ?st' = "\<lparr>fs = fs_dir_meets_file,
        out = [Creating [] [''tgt'', ''d''], SKIPPED,
               Creating [] [''tgt'', ''f.txt''], SKIPPED]\<rparr>"
  have i: "iterdir (fs ?st) [''src''] = [] @ [''src'', ''d''] # [[''src'', ''f.txt'']]"
    by code_simp
  have d: "is_dir (fs ?st) [''src'', ''d'']" by code_simp
  have f: "is_file fs_dir_meets_file [''tgt'', ''d'']" by code_simp
  have n: "name [''src'', ''d''] = ''d''" by code_simp
  have run: "sync_dirs (Suc 1) [''src''] [''tgt''] [] False ?st = Some (None, ?st')"
    by code_simp
  note item = sync_dirs_directory_item [OF i d, of 1 "[''tgt'']" "[]" False]
  from item f n
  have 1: "sync_dirs (Suc 1) [''src''] [''tgt''] [] False ?st =
     sync_loop 1 [''tgt''] [] False
       (existing_files_in fs_dir_meets_file [''tgt''])
       (existing_folders_in fs_dir_meets_file [''tgt''])
       [[''src'', ''f.txt'']]
       \<lparr>fs = fs_dir_meets_file, out = [Creating [] [''tgt'', ''d''], SKIPPED]\<rparr>"
    by (simp add: echo_def del: sync_dirs.simps(2) sync_loop.simps(2))
  from item have "\<forall>r st'. sync_dirs (Suc 1) [''src''] [''tgt''] [] False ?st = Some (r, st') \<longrightarrow>
      (\<exists>evs. out st' = out ?st @ evs \<and>
         set (followers (Creating [] ([''tgt''] @ [name [''src'', ''d'']])) evs)
           \<subseteq> {if \<not> False \<and> is_file (fs ?st) ([''tgt''] @ [name [''src'', ''d'']])
               then SKIPPED else Newline} \<and>
         (r = None \<longrightarrow>
            (if \<not> False \<and> is_file (fs ?st) ([''tgt''] @ [name [''src'', ''d'']])
             then SKIPPED else Newline)
              \<in> set (followers (Creating [] ([''tgt''] @ [name [''src'', ''d'']])) evs)))"
    by (rule conjunct2)
  from this [rule_format, OF run] f n
  have 2: "\<exists>evs. [Creating [] [''tgt'', ''d''], SKIPPED, Creating [] [''tgt'', ''f.txt''], SKIPPED] = evs \<and>
      set (followers (Creating [] [''tgt'', ''d'']) evs) \<subseteq> {SKIPPED} \<and>
      SKIPPED \<in> set (followers (Creating [] [''tgt'', ''d'']) evs)"
    by simp
  from i d f 1 run 2 show ?thesis by (simp del: sync_dirs.simps(2) sync_loop.simps(2))
qed

text \<open>
  C2. With \<open>overwrite=True\<close> a file of the source is claimed to replace the file of the
  same name in the target at every depth. In the tree \<open>fs_nested\<close> both sides hold
  \<open>sub/b.txt\<close>; the call with \<open>overwrite=True\<close> enters \<open>sub\<close> and, as the recursive call
  does not pass \<open>overwrite\<close> on, reports \<open>b.txt\<close> as skipped and leaves the target's
  bytes as they were.
\<close>

theorem sync_dirs_overwrite_lost_below_top:
  "sync_dirs 2 [''src''] [''tgt''] [] True \<lparr>fs = fs_nested, out = []\<rparr> =
     Some (None,
       \<lparr>fs = fs_nested,
        out = [Creating [] [''tgt'', ''sub''], Newline,
               Creating ''  '' [''tgt'', ''sub'', ''b.txt''], SKIPPED]\<rparr>) \<and>
   lookup fs_nested [''src'', ''sub'', ''b.txt''] = Some (File ''2'') \<and>
   lookup fs_nested [''tgt'', ''sub'', ''b.txt''] = Some (File ''0'')"
  by code_simp

text \<open>
  C6. A source path that is neither a regular file nor a directory: the call returns
  without an error and leaves the file system, and the terminal, as they were.
\<close>

theorem sync_dirs_missing_source:
  assumes "\<not> is_file (fs st) source" and "\<not> is_dir (fs st) source"
  shows "sync_dirs (Suc n) source target pfx overwrite st = Some (None, st)"
  using assms by (simp add: sync_dirs_Suc)

theorem sync_dirs_missing_source_witness:
  "\<not> is_file fs_scenario [''nowhere''] \<and> \<not> is_dir fs_scenario [''nowhere''] \<and>
   sync_dirs 1 [''nowhere''] [''tgt''] [] False \<lparr>fs = fs_scenario, out = []\<rparr> =
     Some (None, \<lparr>fs = fs_scenario, out = []\<rparr>)"
proof -
  have a: "\<not> is_file (fs \<lparr>fs = fs_scenario, out = []\<rparr>) [''nowhere'']" by code_simp
  have b: "\<not> is_dir (fs \<lparr>fs = fs_scenario, out = []\<rparr>) [''nowhere'']" by code_simp
  from sync_dirs_missing_source [OF a b, of 0 "[''tgt'']" "[]" False] a b
  show ?thesis by simp
qed

text \<open>
  C7. When a call comes to a file, in its own loop or in a frame below it, and making
  the target directory or copying the file fails there with the exception \<open>e\<close>, the
  call raises \<open>e\<close>. The state that it leaves is the state at the failure with \<open>FAILED\<close>
  printed last: the file system is the one in which the copy was tried (with the
  directories that \<open>mkdir\<close> made, if it was the copy that failed), so nothing that was
  copied before is undone and no item is handled after the failure, neither in the
  failing frame nor in a frame above it; and every path that was reported as copied is a
  regular file in it.
\<close>

theorem sync_dirs_failure_aborts:
  assumes "arrives n source target pfx overwrite st (target', source_path, st1)"
    and "mkdir (fs st1) target' = Inl e \<or>
         (\<exists>fs2. mkdir (fs st1) target' = Inr fs2 \<and>
                copyfile fs2 source_path (target' @ [name source_path]) = Inl e)"
  shows "\<exists>st'. sync_dirs n source target pfx overwrite st = Some (Some e, st') \<and>
           out st' = out st1 @ [FAILED] \<and>
           fs st' = (case mkdir (fs st1) target' of Inl e' \<Rightarrow> fs st1 | Inr fs2 \<Rightarrow> fs2) \<and>
           (\<exists>evs. out st' = out st @ evs \<and> (\<forall>q \<in> set (copied evs). is_file (fs st') q))"
proof -
  let ?st' = "echo FAILED (st1\<lparr>fs := (case mkdir (fs st1) target' of Inl e' \<Rightarrow> fs st1 | Inr fs2 \<Rightarrow> fs2)\<rparr>)"
  from assms(2) have c: "copy_item target' source_path (target' @ [name source_path]) st1 = (Some e, ?st')"
    by (auto simp: copy_item_def)
  from arrives_raises(1) [OF assms(1), of e ?st'] c
  have run: "sync_dirs n source target pfx overwrite st = Some (Some e, ?st')" by simp
  from sync_dirs_log [OF run]
  have "\<exists>evs. out ?st' = out st @ evs \<and> (\<forall>q \<in> set (copied evs). is_file (fs ?st') q)"
    by blast
  with run show ?thesis by (intro exI [of _ ?st']) simp
qed

theorem sync_dirs_failure_aborts_witness:
  "arrives 2 [''src''] [''tgt''] [] True \<lparr>fs = fs_failing, out = []\<rparr>
     ([''tgt'', ''d''], [''src'', ''d'', ''g.txt''],
      \<lparr>fs = fs_failing_after,
       out = [Creating [] [''tgt'', ''a.txt''], OK,
              Creating [] [''tgt'', ''d''], Newline,
              Creating ''  '' [''tgt'', ''d'', ''g.txt'']]\<rparr>) \<and>
   mkdir fs_failing_after [''tgt'', ''d''] = Inl FileExistsError \<and>
   (\<exists>st'. sync_dirs 2 [''src''] [''tgt''] [] True \<lparr>fs = fs_failing, out = []\<rparr>
            = Some (Some FileExistsError, st') \<and>
          out st' = [Creating [] [''tgt'', ''a.txt''], OK,
                     Creating [] [''tgt'', ''d''], Newline,
                     Creating ''  '' [''tgt'', ''d'', ''g.txt''], FAILED] \<and>
          fs st' = fs_failing_after \<and>
          is_file (fs st') [''tgt'', ''a.txt''] \<and>
          \<not> exists_path (fs st') [''tgt'', ''z.txt''])"
proof -
  let ?st1 = "\<lparr>fs = fs_failing_after,
       out = [Creating [] [''tgt'', ''a.txt''], OK,
              Creating [] [''tgt'', ''d''], Newline,
              Creating ''  '' [''tgt'', ''d'', ''g.txt'']]\<rparr>"
  have a: "arrives 2 [''src''] [''tgt''] [] True \<lparr>fs = fs_failing, out = []\<rparr>
     ([''tgt'', ''d''], [''src'', ''d'', ''g.txt''], ?st1)"
    by code_simp
  have m: "mkdir fs_failing_after [''tgt'', ''d''] = Inl FileExistsError" by code_simp
  then have h: "mkdir (fs ?st1) [''tgt'', ''d''] = Inl FileExistsError \<or>
         (\<exists>fs2. mkdir (fs ?st1) [''tgt'', ''d''] = Inr fs2 \<and>
                copyfile fs2 [''src'', ''d'', ''g.txt'']
                  ([''tgt'', ''d''] @ [name [''src'', ''d'', ''g.txt'']]) = Inl FileExistsError)"
    by simp
  have f: "is_file fs_failing_after [''tgt'', ''a.txt'']" by code_simp
  have z: "\<not> exists_path fs_failing_after [''tgt'', ''z.txt'']" by code_simp
  from sync_dirs_failure_aborts [OF a h] m f z
  have "\<exists>st'. sync_dirs 2 [''src''] [''tgt''] [] True \<lparr>fs = fs_failing, out = []\<rparr>
            = Some (Some FileExistsError, st') \<and>
          out st' = [Creating [] [''tgt'', ''a.txt''], OK,
                     Creating [] [''tgt'', ''d''], Newline,
                     Creating ''  '' [''tgt'', ''d'', ''g.txt''], FAILED] \<and>
          fs st' = fs_failing_after \<and>
          is_file (fs st') [''tgt'', ''a.txt''] \<and>
          \<not> exists_path (fs st') [''tgt'', ''z.txt'']"
    by auto
  with a m show ?thesis by simp
qed

text \<open>
  C8. After \<open>_copy_pipeline_tests\<close> and \<open>_copy_pipeline_configs\<close> the scratch directory
  (the \<open>tests\<close>, respectively \<open>config\<close>, entry of the generated pipeline) does not exist,
  whether the merge returned or raised, and for the configuration also when the copy is
  skipped. The scratch entry is a directory (or is missing, in which case \<open>rmtree\<close> itself
  raises). With the scratch directory and the target apart from one another, the call has
  an outcome.
\<close>

theorem scratch_directories_removed:
  "(\<not> is_file (fs st) (result_path @ [''tests'']) \<longrightarrow>
      copy_pipeline_tests n result_path tests_target st = Some (r, st') \<longrightarrow>
      \<not> exists_path (fs st') (result_path @ [''tests''])) \<and>
   (\<not> is_file (fs st) (result_path @ [''config'']) \<longrightarrow>
      copy_pipeline_configs n result_path conf_path skip_config env st = Some (r, st') \<longrightarrow>
      \<not> exists_path (fs st') (result_path @ [''config''])) \<and>
   (apart (result_path @ [''tests'']) tests_target \<longrightarrow>
      (\<exists>m r1 st1. copy_pipeline_tests m result_path tests_target st = Some (r1, st1))) \<and>
   (apart (result_path @ [''config'']) (conf_path @ [env]) \<longrightarrow>
      (\<exists>m r1 st1. copy_pipeline_configs m result_path conf_path skip_config env st = Some (r1, st1)))"
proof (intro conjI impI)
  let ?src = "result_path @ [''tests'']"
  assume nf: "\<not> is_file (fs st) ?src"
    and run: "copy_pipeline_tests n result_path tests_target st = Some (r, st')"
  from run obtain r1 st1 where s: "sync_dirs n ?src tests_target [] False st = Some (r1, st1)"
    and fin: "st' = (case rmtree (fs st1) ?src of Inl e \<Rightarrow> st1 | Inr fs2 \<Rightarrow> st1\<lparr>fs := fs2\<rparr>)"
    by (auto simp: copy_pipeline_tests_def Let_def split: option.splits sum.splits)
  from sync_dirs_no_new_file_at_source [OF s nf] have "\<not> is_file (fs st1) ?src" .
  from rmtree_gone [OF this] fin show "\<not> exists_path (fs st') ?src"
    by (auto split: sum.splits)
next
  let ?src = "result_path @ [''config'']"
  assume nf: "\<not> is_file (fs st) ?src"
    and run: "copy_pipeline_configs n result_path conf_path skip_config env st = Some (r, st')"
  from run obtain r1 st1 where
    s: "(if skip_config then Some (None, st)
         else sync_dirs n ?src (conf_path @ [env]) [] False st) = Some (r1, st1)"
    and fin: "st' = (case rmtree (fs st1) ?src of Inl e \<Rightarrow> st1 | Inr fs2 \<Rightarrow> st1\<lparr>fs := fs2\<rparr>)"
    unfolding copy_pipeline_configs_unfold
    by (cases "if skip_config then Some (None, st)
         else sync_dirs n ?src (conf_path @ [env]) [] False st")
       (auto split: sum.splits)
  have "\<not> is_file (fs st1) ?src"
  proof (cases skip_config)
    case True
    with s nf show ?thesis by simp
  next
    case False
    with s have "sync_dirs n ?src (conf_path @ [env]) [] False st = Some (r1, st1)" by simp
    from sync_dirs_no_new_file_at_source [OF this nf] show ?thesis .
  qed
  from rmtree_gone [OF this] fin show "\<not> exists_path (fs st') ?src"
    by (auto split: sum.splits)
next
  let ?src = "result_path @ [''tests'']"
  assume "apart ?src tests_target"
  from sync_dirs_terminates [OF this, of st "Suc (depth (fs st) ?src)" "[]" False]
  obtain r1 st1 where
    "sync_dirs (Suc (depth (fs st) ?src)) ?src tests_target [] False st = Some (r1, st1)"
    by auto
  then have "\<exists>r2 st2. copy_pipeline_tests (Suc (depth (fs st) ?src)) result_path tests_target st
      = Some (r2, st2)"
    by (auto simp: copy_pipeline_tests_def Let_def split: sum.splits)
  then show "\<exists>m r1 st1. copy_pipeline_tests m result_path tests_target st = Some (r1, st1)"
    by blast
next
  let ?src = "result_path @ [''config'']"
  assume "apart ?src (conf_path @ [env])"
  from sync_dirs_terminates [OF this, of st "Suc (depth (fs st) ?src)" "[]" False]
  obtain r1 st1 where
    "sync_dirs (Suc (depth (fs st) ?src)) ?src (conf_path @ [env]) [] False st = Some (r1, st1)"
    by auto
  then have "\<exists>r2 st2. copy_pipeline_configs (Suc (depth (fs st) ?src)) result_path conf_path
      skip_config env st = Some (r2, st2)"
    unfolding copy_pipeline_configs_unfold by (cases skip_config) (auto split: sum.splits)
  then show "\<exists>m r1 st1. copy_pipeline_configs m result_path conf_path skip_config env st
      = Some (r1, st1)"
    by blast
qed

theorem scratch_directories_removed_witness:
  "\<not> is_file fs_project [''src'', ''pkg'', ''pipelines'', ''dp'', ''tests''] \<and>
   copy_pipeline_tests 2 [''src'', ''pkg'', ''pipelines'', ''dp'']
       [''src'', ''tests'', ''pipelines'', ''dp''] \<lparr>fs = fs_project, out = []\<rparr> =
     Some (Some NotADirectoryError,
       \<lparr>fs = fs_project_after_tests,
        out = [Creating [] [''src'', ''tests'', ''pipelines'', ''dp'', ''test_pipeline.py''],
               FAILED]\<rparr>) \<and>
   \<not> exists_path fs_project_after_tests [''src'', ''pkg'', ''pipelines'', ''dp'', ''tests''] \<and>
   \<not> is_file fs_project [''src'', ''pkg'', ''pipelines'', ''dp'', ''config''] \<and>
   copy_pipeline_configs 2 [''src'', ''pkg'', ''pipelines'', ''dp''] [''conf''] False ''base''
       \<lparr>fs = fs_project, out = []\<rparr> =
     Some (None,
       \<lparr>fs = fs_project_after_configs,
        out = [Creating [] [''conf'', ''base'', ''parameters_dp.yml''], OK]\<rparr>) \<and>
   \<not> exists_path fs_project_after_configs [''src'', ''pkg'', ''pipelines'', ''dp'', ''config''] \<and>
   apart [''src'', ''pkg'', ''pipelines'', ''dp'', ''tests''] [''src'', ''tests'', ''pipelines'', ''dp''] \<and>
   apart [''src'', ''pkg'', ''pipelines'', ''dp'', ''config''] [''conf'', ''base'']"
proof -
  let ?st = "\<lparr>fs = fs_project, out = []\<rparr>"
  let ?rp = "[''src'', ''pkg'', ''pipelines'', ''dp'']"
  let ?st1 = "\<lparr>fs = fs_project_after_tests,
        out = [Creating [] [''src'', ''tests'', ''pipelines'', ''dp'', ''test_pipeline.py''],
               FAILED]\<rparr>"
  let ?st2 = "\<lparr>fs = fs_project_after_configs,
        out = [Creating [] [''conf'', ''base'', ''parameters_dp.yml''], OK]\<rparr>"
  have a1: "\<not> is_file (fs ?st) (?rp @ [''tests''])" by code_simp
  have a2: "\<not> is_file (fs ?st) (?rp @ [''config''])" by code_simp
  have r1: "copy_pipeline_tests 2 ?rp [''src'', ''tests'', ''pipelines'', ''dp''] ?st
      = Some (Some NotADirectoryError, ?st1)" by code_simp
  have r2: "copy_pipeline_configs 2 ?rp [''conf''] False ''base'' ?st = Some (None, ?st2)"
    by code_simp
  have p1: "apart (?rp @ [''tests'']) [''src'', ''tests'', ''pipelines'', ''dp'']"
    by (simp add: apart_def)
  have p2: "apart (?rp @ [''config'']) ([''conf''] @ [''base''])" by (simp add: apart_def)
  have gone1: "\<not> exists_path (fs ?st1) (?rp @ [''tests''])"
    using scratch_directories_removed [of ?st ?rp 2 "[''src'', ''tests'', ''pipelines'', ''dp'']"
        "Some NotADirectoryError" ?st1] a1 r1 by blast
  have gone2: "\<not> exists_path (fs ?st2) (?rp @ [''config''])"
    using scratch_directories_removed [of ?st ?rp 2 _ None ?st2 "[''conf'']" False "''base''"]
      a2 r2 by blast
  from a1 a2 r1 r2 p1 p2 gone1 gone2 show ?thesis by simp
qed

text \<open>
  C3. Claimed: merging a source tree into an empty (or missing) target gives a target
  with the files and the directory structure of the source, directories without files
  included. In the tree \<open>fs_empty_dir\<close> the source has the directory \<open>empty\<close>, which
  holds nothing, and the target is an empty directory; after the merge the target has
  \<open>a.txt\<close> and no \<open>empty\<close>: a target directory is only made when a file is about to
  be written into it.
\<close>

theorem sync_dirs_leaves_out_empty_directory:
  "is_dir fs_empty_dir [''src'', ''empty''] \<and>
   lookup fs_empty_dir [''tgt''] = Some (Dir []) \<and>
   sync_dirs 2 [''src''] [''tgt''] [] False \<lparr>fs = fs_empty_dir, out = []\<rparr> =
     Some (None,
       \<lparr>fs = fs_empty_dir_after,
        out = [Creating [] [''tgt'', ''a.txt''], OK,
               Creating [] [''tgt'', ''empty''], Newline]\<rparr>) \<and>
   \<not> exists_path fs_empty_dir_after [''tgt'', ''empty'']"
  by code_simp

text \<open>
  C3, amended. The source is a directory whose entries have distinct names, source and
  target are apart, the target holds nothing, and the target directory can be made (no
  regular file is in the way). Then, with at least as many nested calls allowed as the
  source has levels, the merge returns without an error, whatever \<open>overwrite\<close> is; below
  the target every path shows what \<open>copy_stat\<close> says: the files of the source with
  their bytes, the directories of the source that hold a file at some depth, and nothing
  else; the target itself is a directory afterwards if it was one or if the source
  holds a file; and the source is as before.
\<close>

theorem sync_dirs_into_empty_target:
  assumes src: "lookup (fs st) source = Some (Dir es)" "wf_node (Dir es)"
    and ap: "apart source target"
    and tgt: "iterdir (fs st) target = []" "can_mkdir (fs st) target"
    and fuel: "height (Dir es) \<le> n"
  shows "\<exists>st'. sync_dirs n source target pfx overwrite st = Some (None, st') \<and>
           (\<forall>q. q \<noteq> [] \<longrightarrow> stat (fs st') (target @ q) = copy_stat (Dir es) q) \<and>
           (is_dir (fs st') target \<longleftrightarrow> is_dir (fs st) target \<or> has_file (Dir es)) \<and>
           lookup (fs st') source = Some (Dir es)"
proof -
  from tgt(2) have cr: "\<forall>q. prefix q target \<longrightarrow> \<not> is_file (fs st) q" by (simp add: can_mkdir_iff)
  then have "\<not> is_file (fs st) target" by simp
  with tgt(1) have em: "\<forall>q. q \<noteq> [] \<longrightarrow> stat (fs st) (target @ q) = None"
    by (simp add: nothing_below)
  from sync_dirs_merged [OF src ap cr em fuel] obtain st' where
    run: "sync_dirs n source target pfx overwrite st = Some (None, st')"
    and m: "merged st target (Dir es) st'" by blast
  from m have 1: "\<forall>q. q \<noteq> [] \<longrightarrow> stat (fs st') (target @ q) = copy_stat (Dir es) q"
    by (simp add: merged_def)
  from m have "stat (fs st') target
      = (if has_file (Dir es) then copy_stat (Dir es) [] else stat (fs st) target)"
    by (simp add: merged_def)
  then have 2: "is_dir (fs st') target \<longleftrightarrow> is_dir (fs st) target \<or> has_file (Dir es)"
    by (auto simp: stat_is_dir copy_stat_def split: if_splits)
  from sync_dirs_frame' [OF run ap] src(1) have 3: "lookup (fs st') source = Some (Dir es)"
    by simp
  from run 1 2 3 show ?thesis by blast
qed

theorem sync_dirs_into_empty_target_witness:
  "lookup fs_empty_dir [''src''] = Some (Dir [(''a.txt'', File ''1''), (''empty'', Dir [])]) \<and>
   wf_node (Dir [(''a.txt'', File ''1''), (''empty'', Dir [])]) \<and>
   apart [''src''] [''tgt''] \<and> iterdir fs_empty_dir [''tgt''] = [] \<and>
   can_mkdir fs_empty_dir [''tgt''] \<and>
   height (Dir [(''a.txt'', File ''1''), (''empty'', Dir [])]) \<le> 2 \<and>
   (\<exists>st'. sync_dirs 2 [''src''] [''tgt''] [] False \<lparr>fs = fs_empty_dir, out = []\<rparr> = Some (None, st') \<and>
      (\<forall>q. q \<noteq> [] \<longrightarrow>
         stat (fs st') ([''tgt''] @ q) = copy_stat (Dir [(''a.txt'', File ''1''), (''empty'', Dir [])]) q) \<and>
      (is_dir (fs st') [''tgt''] \<longleftrightarrow>
         is_dir fs_empty_dir [''tgt''] \<or> has_file (Dir [(''a.txt'', File ''1''), (''empty'', Dir [])])) \<and>
      lookup (fs st') [''src''] = Some (Dir [(''a.txt'', File ''1''), (''empty'', Dir [])]))"
proof -
  let ?S = "Dir [(''a.txt'', File ''1''), (''empty'', Dir [])]"
  let ?st = "\<lparr>fs = fs_empty_dir, out = []\<rparr>"
  have 1: "lookup (fs ?st) [''src''] = Some ?S" by code_simp
  have 2: "wf_node ?S" by code_simp
  have 3: "apart [''src''] [''tgt'']" by (simp add: apart_def)
  have 4: "iterdir (fs ?st) [''tgt''] = []" by code_simp
  have 5: "can_mkdir (fs ?st) [''tgt'']" by code_simp
  have 6: "height ?S \<le> 2" by code_simp
  from sync_dirs_into_empty_target [OF 1 2 3 4 5 6, of "[]" False] 1 2 3 4 5 6
  show ?thesis by simp
qed




section \<open>Deleting a pipeline that holds a child pipeline\<close>

text \<open>
  C9. Claimed: whenever the directory of the pipeline, or its tests directory, holds a
  Python file inside a subdirectory, \<open>delete_pipeline\<close> raises the error about the
  child pipeline. In the project \<open>fs_child_no_env\<close> the pipeline \<open>dp\<close> holds
  \<open>inner/nodes.py\<close>, but the configuration has no environment \<open>base\<close>: the check of
  the environment comes first, and the error that is raised is the one about the
  environment.
\<close>

theorem delete_pipeline_environment_first:
  "is_file fs_child_no_env
     [''proj'', ''src'', ''pkg'', ''pipelines'', ''dp'', ''inner'', ''nodes.py''] \<and>
   delete_pipeline metadata_proj ''conf'' ''dp'' None True False
       \<lparr>fs = fs_child_no_env, out = []\<rparr> =
     (Some (KedroCliError
        ''Unable to locate environment 'base'. Make sure it exists in the project configuration.''),
      \<lparr>fs = fs_child_no_env, out = []\<rparr>)"
  by code_simp

text \<open>
  C9, amended. Let the directory of the pipeline, or its tests directory, hold a Python
  file inside a subdirectory (an entry of a directory is never called \<open>..\<close>). If the
  directory of the environment exists, \<open>delete_pipeline\<close> raises the error about the
  child pipeline, which names one of the two directories and a directory inside it; if
  it does not exist, \<open>delete_pipeline\<close> raises the error about the environment. In
  both cases the state is the one it started from: nothing is removed, nothing is
  changed, nothing is printed.
\<close>

theorem delete_pipeline_child_pipeline:
  assumes d: "d = pipeline_dir (get_pipeline_artifacts metadata conf_source name_arg (env_or_base env_arg))
            \<or> d = pipeline_tests (get_pipeline_artifacts metadata conf_source name_arg (env_or_base env_arg))"
    and dir: "Path_lookup (fs st) d = Some D"
    and py: "is_file D (sub # rest)" "rest \<noteq> []" "suffix ''.py'' (last rest)"
    and sub: "sub \<noteq> ''..''"
  shows "(Path_exists (fs st)
            (truediv (truediv (project_path metadata) conf_source) (env_or_base env_arg)) \<longrightarrow>
          (\<exists>dir_to_delete q.
             delete_pipeline metadata conf_source name_arg env_arg yes answer st
               = (Some (KedroCliError (child_pipeline_message dir_to_delete
                                         (fst dir_to_delete, snd dir_to_delete @ q))), st)
             \<and> Path_is_dir (fs st) dir_to_delete
             \<and> (dir_to_delete = pipeline_dir (get_pipeline_artifacts metadata conf_source name_arg
                                                 (env_or_base env_arg))
                \<or> dir_to_delete = pipeline_tests (get_pipeline_artifacts metadata conf_source name_arg
                                                     (env_or_base env_arg)))
             \<and> q \<noteq> [])) \<and>
         (\<not> Path_exists (fs st)
            (truediv (truediv (project_path metadata) conf_source) (env_or_base env_arg)) \<longrightarrow>
          delete_pipeline metadata conf_source name_arg env_arg yes answer st
            = (Some (KedroCliError (unable_to_locate (env_or_base env_arg))), st))"
proof (intro conjI impI)
  let ?env = "env_or_base env_arg"
  let ?art = "get_pipeline_artifacts metadata conf_source name_arg ?env"
  let ?dirs = "filter (Path_is_dir (fs st)) [pipeline_dir ?art, pipeline_tests ?art]"
  let ?found = "[(dir_to_delete, py_file).
                      dir_to_delete \<leftarrow> ?dirs,
                      subdir \<leftarrow> glob_dirs (fs st) dir_to_delete,
                      py_file \<leftarrow> glob_py (fs st) subdir]"
  assume ex: "Path_exists (fs st) (truediv (truediv (project_path metadata) conf_source) ?env)"
  from py(1) have ne: "lookup D ([sub] @ rest) \<noteq> None"
    by (auto simp: is_file_def split: option.splits)
  from is_dir_above [OF ne py(2)] obtain es' where s: "lookup D [sub] = Some (Dir es')"
    by (auto dest: is_dir_lookup)
  then obtain es where D: "D = Dir es" and m: "map_of es sub = Some (Dir es')"
    by (cases D) (auto split: option.splits)
  from dir D have "Path_is_dir (fs st) d" by (simp add: Path_is_dir_def)
  with d have 1: "d \<in> set ?dirs" by auto
  from dir D have dl: "Path_lookup (fs st) d = Some (Dir es)" by simp
  from glob_dirs_mem [OF dl m] have 2: "(fst d, snd d @ [sub]) \<in> set (glob_dirs (fs st) d)" .
  from Path_lookup_entry [OF dl sub] m
  have sl: "Path_lookup (fs st) (fst d, snd d @ [sub]) = Some (Dir es')" by simp
  from py(2) obtain q f where rest: "rest = q @ [f]" by (cases rest rule: rev_cases) auto
  from ne D m have "lookup (Dir es') (q @ [f]) \<noteq> None" by (simp add: rest)
  from glob_py_mem [OF sl this] py(3) rest
  have 3: "(fst d, snd d @ [sub] @ q @ [f]) \<in> set (glob_py (fs st) (fst d, snd d @ [sub]))"
    by simp
  from 1 2 3 have "(d, (fst d, snd d @ [sub] @ q @ [f])) \<in> set ?found" by (rule nested_for_mem)
  then obtain found others where f: "?found = found # others" by (cases ?found) auto
  then have "(fst found, snd found) \<in> set ?found" by simp
  from nested_for_elem [OF this] obtain subdir where
    a: "fst found \<in> set ?dirs" and b: "subdir \<in> set (glob_dirs (fs st) (fst found))"
    and c: "snd found \<in> set (glob_py (fs st) subdir)"
    by blast
  from glob_below b obtain q1 where q1: "subdir = (fst (fst found), snd (fst found) @ q1)"
    "q1 \<noteq> []" by blast
  from glob_below c obtain q2 where q2: "snd found = (fst subdir, snd subdir @ q2)" "q2 \<noteq> []"
    by blast
  from q1 q2 have p: "parent (snd found) = (fst (fst found), snd (fst found) @ q1 @ butlast q2)"
    by (simp add: parent_def butlast_append)
  have run: "delete_pipeline metadata conf_source name_arg env_arg yes answer st
            = (Some (KedroCliError (child_pipeline_message (fst found) (parent (snd found)))), st)"
    using ex f unfolding delete_pipeline_def Let_def by simp
  show "\<exists>dir_to_delete q.
             delete_pipeline metadata conf_source name_arg env_arg yes answer st
               = (Some (KedroCliError (child_pipeline_message dir_to_delete
                                         (fst dir_to_delete, snd dir_to_delete @ q))), st)
             \<and> Path_is_dir (fs st) dir_to_delete
             \<and> (dir_to_delete = pipeline_dir ?art \<or> dir_to_delete = pipeline_tests ?art)
             \<and> q \<noteq> []"
  proof (intro exI [of _ "fst found"] exI [of _ "q1 @ butlast q2"] conjI)
    show "delete_pipeline metadata conf_source name_arg env_arg yes answer st
            = (Some (KedroCliError (child_pipeline_message (fst found)
                 (fst (fst found), snd (fst found) @ q1 @ butlast q2))), st)"
      using run p by simp
    show "Path_is_dir (fs st) (fst found)" using a by (auto split: if_splits)
    show "fst found = pipeline_dir ?art \<or> fst found = pipeline_tests ?art"
      using a by (auto split: if_splits)
    show "q1 @ butlast q2 \<noteq> []" using q1(2) by simp
  qed
next
  assume "\<not> Path_exists (fs st)
      (truediv (truediv (project_path metadata) conf_source) (env_or_base env_arg))"
  then show "delete_pipeline metadata conf_source name_arg env_arg yes answer st
            = (Some (KedroCliError (unable_to_locate (env_or_base env_arg))), st)"
    by (simp add: delete_pipeline_def Let_def)
qed

theorem delete_pipeline_child_pipeline_witness:
  "pipeline_dir (get_pipeline_artifacts metadata_proj ''conf'' ''dp'' (env_or_base None))
     = (''/'', [''proj'', ''src'', ''pkg'', ''pipelines'', ''dp'']) \<and>
   is_file fs_child [''proj'', ''src'', ''pkg'', ''pipelines'', ''dp'', ''inner'', ''nodes.py''] \<and>
   Path_exists fs_child
     (truediv (truediv (project_path metadata_proj) ''conf'') (env_or_base None)) \<and>
   (\<exists>dir_to_delete q.
      delete_pipeline metadata_proj ''conf'' ''dp'' None True False \<lparr>fs = fs_child, out = []\<rparr>
        = (Some (KedroCliError (child_pipeline_message dir_to_delete
                                  (fst dir_to_delete, snd dir_to_delete @ q))),
           \<lparr>fs = fs_child, out = []\<rparr>))"
proof -
  let ?st = "\<lparr>fs = fs_child, out = []\<rparr>"
  let ?d = "(''/'', [''proj'', ''src'', ''pkg'', ''pipelines'', ''dp''])"
  let ?D = "Dir [(''__init__.py'', File ''i''), (''pipeline.py'', File ''p''),
                 (''inner'', Dir [(''nodes.py'', File ''n'')])]"
  have a: "pipeline_dir (get_pipeline_artifacts metadata_proj ''conf'' ''dp'' (env_or_base None)) = ?d"
    by code_simp
  then have d: "?d = pipeline_dir (get_pipeline_artifacts metadata_proj ''conf'' ''dp'' (env_or_base None))
      \<or> ?d = pipeline_tests (get_pipeline_artifacts metadata_proj ''conf'' ''dp'' (env_or_base None))"
    by simp
  have l: "Path_lookup (fs ?st) ?d = Some ?D" by code_simp
  have f: "is_file ?D (''inner'' # [''nodes.py''])" by code_simp
  have r: "[''nodes.py''] \<noteq> []" by simp
  have s: "suffix ''.py'' (last [''nodes.py''])" by code_simp
  have n: "''inner'' \<noteq> ''..''" by simp
  have g: "is_file fs_child
      [''proj'', ''src'', ''pkg'', ''pipelines'', ''dp'', ''inner'', ''nodes.py'']"
    by code_simp
  have e: "Path_exists (fs ?st)
      (truediv (truediv (project_path metadata_proj) ''conf'') (env_or_base None))"
    by code_simp
  from delete_pipeline_child_pipeline [OF d l f r s n, of True False] e
  have "\<exists>dir_to_delete q.
      delete_pipeline metadata_proj ''conf'' ''dp'' None True False ?st
        = (Some (KedroCliError (child_pipeline_message dir_to_delete
                                  (fst dir_to_delete, snd dir_to_delete @ q))), ?st)"
    by blast
  with a g e show ?thesis by simp
qed

end
